theory Spec2Isabelle
  imports Complex_Main "HOL-Library.Word"
begin

section \<open>Bytes, headers, records\<close>

text \<open>
  A Go \<^verbatim>\<open>[]byte\<close> is a list of 8-bit words, a Go \<^verbatim>\<open>string\<close> an Isabelle string.
  A \<^verbatim>\<open>panic\<close> is the left summand of a sum type and carries the panic's message.
\<close>

type_synonym byte = "8 word"

datatype fault = Panic string

text \<open>
  Modelled from the spec: the type \<^verbatim>\<open>Header\<close> and its method \<^verbatim>\<open>Set\<close> are declared outside
  the files at hand. A header is a field set keyed by field name; \<^verbatim>\<open>Set\<close> stores one value
  under a name, replacing what the name held.
\<close>

type_synonym Header = "string \<rightharpoonup> string"

definition Set :: "Header \<Rightarrow> string \<Rightarrow> string \<Rightarrow> Header" where
  "Set h k v = h(k \<mapsto> v)"

record Record =
  Header :: Header
  Content :: "byte list"

text \<open>
  Modelled from the spec: \<^verbatim>\<open>NewRecord\<close> and \<^verbatim>\<open>NewRecordBatch\<close> are declared outside the files at
  hand. A new record has no field and no content; a new batch has no record and the capture time
  read from the clock when it is made (the argument \<open>now\<close>).
\<close>

definition NewRecord :: Record where
  "NewRecord = \<lparr>Header = Map.empty, Content = []\<rparr>"

record RecordBatch =
  Records :: "Record list"
  CaptureTime :: string

definition NewRecordBatch :: "string \<Rightarrow> RecordBatch" where
  "NewRecordBatch now = \<lparr>Records = [], CaptureTime = now\<rparr>"

section \<open>The record builder\<close>

subsection \<open>headersFromRawData\<close>

definition pattern :: "byte list" where
  "pattern = [0x0d, 0x0a, 0x0d, 0x0a]"

text \<open>
  The scanning loop of \<^verbatim>\<open>headersFromRawData\<close>, started at index \<open>i\<close>. It panics when fewer than
  four bytes are left at \<open>i\<close>, stops with \<open>pos = i + 4\<close> at the first index whose four bytes are
  the pattern, and leaves \<open>pos = 0\<close> when the range is exhausted (the empty input).
\<close>

function scanPattern :: "byte list \<Rightarrow> nat \<Rightarrow> fault + nat" where
  "scanPattern data i =
     (if i < length data then
        (if length data < i + 4 then Inl (Panic ''cant find header data'')
         else if take 4 (drop i data) = pattern then Inr (i + 4)
         else scanPattern data (Suc i))
      else Inr 0)"
  by pat_completeness auto
termination
  by (relation "measure (\<lambda>(data, i). length data - i)") auto

declare scanPattern.simps [simp del]

text \<open>
  \<^verbatim>\<open>textproto.Reader.ReadLine\<close> on a reader over \<open>bs\<close>: the bytes before the first line feed,
  without the carriage return that may end them, and the bytes left in the reader. The reader
  reports end of input when it holds nothing.
\<close>

definition chopCR :: "byte list \<Rightarrow> byte list" where
  "chopCR line = (if line \<noteq> [] \<and> last line = 0x0d then butlast line else line)"

definition ReadLine :: "byte list \<Rightarrow> fault + (byte list \<times> byte list)" where
  "ReadLine bs =
     (if bs = [] then Inl (Panic ''EOF'')
      else Inr (chopCR (takeWhile (\<lambda>b. b \<noteq> 0x0a) bs), drop 1 (dropWhile (\<lambda>b. b \<noteq> 0x0a) bs)))"

text \<open>
  \<^verbatim>\<open>strings.Join(v, ",")\<close>.
\<close>

fun Join :: "string list \<Rightarrow> string \<Rightarrow> string" where
  "Join [] sep = []"
| "Join [v] sep = v"
| "Join (v # w # vs) sep = v @ sep @ Join (w # vs) sep"

text \<open>
  The library's \<^verbatim>\<open>ReadMIMEHeader\<close> is a parameter: from the bytes left in the reader it gives
  an error, or the fields as name and values, in the order the \<^verbatim>\<open>range\<close> loop visits them.
\<close>

type_synonym mimeReader = "byte list \<Rightarrow> string + (string \<times> string list) list"

definition setJoined :: "Record \<Rightarrow> (string \<times> string list) list \<Rightarrow> Record" where
  "setJoined r kvs = fold (\<lambda>(k, v) r. r\<lparr>Header := Set (Header r) k (Join v '','')\<rparr>) kvs r"

text \<open>
  What \<^verbatim>\<open>headersFromRawData\<close> does with the header block \<open>data[:pos]\<close>: the first line is read
  and dropped, the rest is parsed as a MIME header, and every field is set on the record.
\<close>

definition parseHeaderBlock :: "mimeReader \<Rightarrow> Record \<Rightarrow> byte list \<Rightarrow> fault + Record" where
  "parseHeaderBlock ReadMIMEHeader r block =
     (case ReadLine block of
        Inl e \<Rightarrow> Inl e
      | Inr (line, rest) \<Rightarrow>
          (case ReadMIMEHeader rest of
             Inl e \<Rightarrow> Inl (Panic e)
           | Inr mimeHeader \<Rightarrow> Inr (setJoined r mimeHeader)))"

definition headersFromRawData :: "mimeReader \<Rightarrow> Record \<Rightarrow> byte list \<Rightarrow> fault + Record" where
  "headersFromRawData ReadMIMEHeader r data =
     (case scanPattern data 0 of
        Inl e \<Rightarrow> Inl e
      | Inr pos \<Rightarrow>
          if pos = 0 then Inl (Panic ''cant find header data'')
          else parseHeaderBlock ReadMIMEHeader r (take pos data))"

subsection \<open>Requests, responses and their bodies\<close>

text \<open>
  An \<^verbatim>\<open>io.ReadCloser\<close> is what reading it to the end gives (an error or the bytes) and the
  error its \<^verbatim>\<open>Close\<close> gives, if any. A nil body is \<open>None\<close>.
\<close>

record ReadCloser =
  readAll :: "string + byte list"
  closeErr :: "string option"

definition NopCloser :: "byte list \<Rightarrow> ReadCloser" where
  "NopCloser bs = \<lparr>readAll = Inr bs, closeErr = None\<rparr>"

record Request =
  URL :: string
  Host :: string
  ReqBody :: "ReadCloser option"

record Response =
  RespBody :: "ReadCloser option"
  RespRequest :: "Request option"

definition readReaderIfNotNil :: "ReadCloser option \<Rightarrow> fault + byte list" where
  "readReaderIfNotNil r =
     (case r of
        None \<Rightarrow> Inr []
      | Some rc \<Rightarrow>
          (case readAll rc of
             Inl e \<Rightarrow> Inl (Panic e)
           | Inr all \<Rightarrow>
               (case closeErr rc of
                  Some e \<Rightarrow> Inl (Panic e)
                | None \<Rightarrow> Inr all)))"

subsection \<open>rawResponseCallback\<close>

definition setFields :: "Record \<Rightarrow> (string \<times> string) list \<Rightarrow> Record" where
  "setFields r kvs = fold (\<lambda>(k, v) r. r\<lparr>Header := Set (Header r) k v\<rparr>) kvs r"

text \<open>
  The callback of the recorder. \<open>GetSHA1\<close> (declared outside the files at hand) is a parameter,
  \<open>now\<close> is the clock read by \<^verbatim>\<open>NewRecordBatch\<close>. The result is the panic that stops the
  callback, or the request and the response with their bodies replaced by re-readable copies
  and the batch sent on the rotator's channel.
\<close>

definition rawResponseCallback ::
  "mimeReader \<Rightarrow> (byte list \<Rightarrow> string) \<Rightarrow> string \<Rightarrow> Request \<Rightarrow> Response \<Rightarrow> byte list \<Rightarrow> byte list
     \<Rightarrow> fault + (Request \<times> Response \<times> RecordBatch)" where
  "rawResponseCallback ReadMIMEHeader GetSHA1 now req resp reqData respData =
     (let batch = NewRecordBatch now in
      case headersFromRawData ReadMIMEHeader NewRecord respData of
        Inl e \<Rightarrow> Inl e
      | Inr responseRecord0 \<Rightarrow>
     (let responseRecord1 = setFields responseRecord0
            [(''WARC-Type'', ''response''),
             (''WARC-Payload-Digest'', ''sha1:'' @ GetSHA1 respData),
             (''WARC-Target-URI'', URL req),
             (''Content-Type'', ''application/http; msgtype=response'')] in
      case readReaderIfNotNil (RespBody resp) of
        Inl e \<Rightarrow> Inl e
      | Inr respBody \<Rightarrow>
     (let resp' = (if RespBody resp \<noteq> None then resp\<lparr>RespBody := Some (NopCloser respBody)\<rparr> else resp);
          responseRecord = responseRecord1\<lparr>Content := respBody\<rparr> in
      case headersFromRawData ReadMIMEHeader NewRecord reqData of
        Inl e \<Rightarrow> Inl e
      | Inr requestRecord0 \<Rightarrow>
     (let requestRecord1 = setFields requestRecord0
            [(''WARC-Type'', ''request''),
             (''WARC-Payload-Digest'', ''sha1:'' @ GetSHA1 reqData),
             (''WARC-Target-URI'', URL req),
             (''Host'', Host req),
             (''Content-Type'', ''application/http; msgtype=request'')] in
      case readReaderIfNotNil (ReqBody req) of
        Inl e \<Rightarrow> Inl e
      | Inr reqBody \<Rightarrow>
     (let req' = (if ReqBody req \<noteq> None then req\<lparr>ReqBody := Some (NopCloser reqBody)\<rparr> else req);
          requestRecord = requestRecord1\<lparr>Content := reqBody\<rparr> in
      Inr (req', resp', batch\<lparr>Records := Records batch @ [responseRecord, requestRecord]\<rparr>))))))"

subsection \<open>RecordsFromHTTPResponse\<close>

text \<open>
  The library's \<^verbatim>\<open>httputil.DumpResponse\<close> and \<^verbatim>\<open>httputil.DumpRequestOut\<close> are parameters.
  The result is the pair the function returns, batch and error; reading the URL of a response
  that has no request is a nil dereference, a panic.
\<close>

definition RecordsFromHTTPResponse ::
  "(Response \<Rightarrow> string + byte list) \<Rightarrow> (Request \<Rightarrow> string + byte list) \<Rightarrow> (byte list \<Rightarrow> string)
     \<Rightarrow> string \<Rightarrow> Response \<Rightarrow> fault + (RecordBatch \<times> string option)" where
  "RecordsFromHTTPResponse DumpResponse DumpRequestOut GetSHA1 now response =
     (let batch = NewRecordBatch now in
      case DumpResponse response of
        Inl err \<Rightarrow> Inr (batch, Some err)
      | Inr responseDump \<Rightarrow>
     (case RespRequest response of
        None \<Rightarrow> Inl (Panic ''nil pointer dereference'')
      | Some request \<Rightarrow>
     (let responseRecord1 = setFields NewRecord
            [(''WARC-Type'', ''response''),
             (''WARC-Payload-Digest'', ''sha1:'' @ GetSHA1 responseDump),
             (''WARC-Target-URI'', URL request),
             (''Content-Type'', ''application/http; msgtype=response'')];
          responseRecord = responseRecord1\<lparr>Content := responseDump\<rparr> in
      case DumpRequestOut request of
        Inl err \<Rightarrow> Inr (batch, Some err)
      | Inr requestDump \<Rightarrow>
     (let requestRecord1 = setFields NewRecord
            [(''WARC-Type'', ''request''),
             (''WARC-Payload-Digest'', ''sha1:'' @ GetSHA1 requestDump),
             (''WARC-Target-URI'', URL request),
             (''Host'', Host request),
             (''Content-Type'', ''application/http; msgtype=request'')];
          requestRecord = requestRecord1\<lparr>Content := requestDump\<rparr> in
      Inr (batch\<lparr>Records := Records batch @ [responseRecord, requestRecord]\<rparr>, None)))))"

section \<open>The rotator\<close>

subsection \<open>Settings, events and state of recordWriter\<close>

text \<open>
  \<open>WarcSize\<close> is a \<^verbatim>\<open>float64\<close> that only \<^verbatim>\<open>isFileSizeExceeded\<close> reads; that function is a
  parameter, so the number is carried and never computed with.
\<close>

record RotatorSettings =
  WarcinfoContent :: Header
  Prefix :: string
  Compression :: string
  WarcSize :: real
  OutputDirectory :: string

text \<open>
  What \<^verbatim>\<open>recordWriter\<close> does to the outside is logged as a list of events, oldest first.
  A file handle is numbered by the \<^verbatim>\<open>os.Create\<close> call that opened it, a \<^verbatim>\<open>Writer\<close> by the
  \<^verbatim>\<open>NewWriter\<close> call that made it; a writer wraps the handle it was made over. Only calls that
  return without error are logged: an error panics and nothing follows it.
\<close>

datatype event =
    GenerateName "64 word" string
  | Create nat string
  | MakeWriter nat nat
  | WriteInfo nat nat string
  | WriteRec nat nat Record
  | CloseCompression nat
  | Flush nat
  | CloseFile nat
  | Rename string string

text \<open>
  The functions \<^verbatim>\<open>recordWriter\<close> calls and that are declared outside the files at hand, or
  belong to the operating system, are parameters. Each reads the events so far (the state of
  the file system and of the clock is a function of them) and its arguments, and gives the
  error or the value the call returns.
\<close>

record rotEnv =
  generateWarcFileName :: "event list \<Rightarrow> string \<Rightarrow> string \<Rightarrow> 64 word \<Rightarrow> string"
  osCreate :: "event list \<Rightarrow> string \<Rightarrow> string option"
  NewWriter :: "event list \<Rightarrow> string \<Rightarrow> string \<Rightarrow> string option"
  WriteInfoRecord :: "event list \<Rightarrow> Header \<Rightarrow> string + string"
  WriteRecord :: "event list \<Rightarrow> Record \<Rightarrow> string option"
  isFileSizeExceeded :: "event list \<Rightarrow> string \<Rightarrow> real \<Rightarrow> bool"
  osRename :: "event list \<Rightarrow> string \<Rightarrow> string \<Rightarrow> string option"

record Writer =
  wid :: nat
  wfile :: nat

text \<open>
  The local variables of \<^verbatim>\<open>recordWriter\<close>, the log, the counters that number handles and
  writers, and the panic that stopped the task, if one did. \<open>serial\<close> is a Go \<^verbatim>\<open>int\<close>, 64 bits
  wide.
\<close>

record wstate =
  trace :: "event list"
  stopped :: "fault option"
  serial :: "64 word"
  currentFileName :: string
  currentWarcinfoRecordID :: string
  warcFile :: nat
  warcWriter :: Writer
  files :: nat
  writers :: nat

definition initial :: wstate where
  "initial = \<lparr>trace = [], stopped = None, serial = 1, currentFileName = [],
     currentWarcinfoRecordID = [], warcFile = 0, warcWriter = \<lparr>wid = 0, wfile = 0\<rparr>,
     files = 0, writers = 0\<rparr>"

text \<open>Statements run in sequence until one panics.\<close>

fun steps :: "(wstate \<Rightarrow> wstate) list \<Rightarrow> wstate \<Rightarrow> wstate" where
  "steps [] s = s"
| "steps (a # as) s = (if stopped s = None then steps as (a s) else s)"

definition emit :: "event \<Rightarrow> wstate \<Rightarrow> wstate" where
  "emit e s = s\<lparr>trace := trace s @ [e]\<rparr>"

definition panic :: "string \<Rightarrow> wstate \<Rightarrow> wstate" where
  "panic e s = s\<lparr>stopped := Some (Panic e)\<rparr>"

subsection \<open>The statements of recordWriter\<close>

definition TrimSuffix :: "string \<Rightarrow> string \<Rightarrow> string" where
  "TrimSuffix s suf =
     (if length suf \<le> length s \<and> drop (length s - length suf) s = suf
      then take (length s - length suf) s else s)"

definition nameFile :: "rotEnv \<Rightarrow> RotatorSettings \<Rightarrow> wstate \<Rightarrow> wstate" where
  "nameFile env st s =
     (let name = generateWarcFileName env (trace s) (Prefix st) (Compression st) (serial s)
      in emit (GenerateName (serial s) name) (s\<lparr>currentFileName := name\<rparr>))"

definition createFile :: "rotEnv \<Rightarrow> RotatorSettings \<Rightarrow> wstate \<Rightarrow> wstate" where
  "createFile env st s =
     (let path = OutputDirectory st @ currentFileName s in
      case osCreate env (trace s) path of
        Some err \<Rightarrow> panic err s
      | None \<Rightarrow> emit (Create (files s) path) (s\<lparr>warcFile := files s, files := Suc (files s)\<rparr>))"

definition newWriter :: "rotEnv \<Rightarrow> RotatorSettings \<Rightarrow> wstate \<Rightarrow> wstate" where
  "newWriter env st s =
     (case NewWriter env (trace s) (currentFileName s) (Compression st) of
        Some err \<Rightarrow> panic err s
      | None \<Rightarrow>
          emit (MakeWriter (writers s) (warcFile s))
            (s\<lparr>warcWriter := \<lparr>wid = writers s, wfile = warcFile s\<rparr>, writers := Suc (writers s)\<rparr>))"

text \<open>
  \<^verbatim>\<open>WriteInfoRecord\<close>. At the start of the task its result is assigned to the variable
  \<^verbatim>\<open>currentWarcinfoRecordID\<close> of the function body (\<open>assign = True\<close>). Inside the rotation block
  the result is bound with \<^verbatim>\<open>:=\<close> to a new variable of the same name, local to the block and
  dropped at its end (\<open>assign = False\<close>): the variable of the function body keeps its value.
\<close>

definition writeInfoRecord :: "rotEnv \<Rightarrow> RotatorSettings \<Rightarrow> bool \<Rightarrow> wstate \<Rightarrow> wstate" where
  "writeInfoRecord env st assign s =
     (case WriteInfoRecord env (trace s) (WarcinfoContent st) of
        Inl err \<Rightarrow> panic err s
      | Inr recordID \<Rightarrow>
          emit (WriteInfo (wid (warcWriter s)) (wfile (warcWriter s)) recordID)
            (if assign then s\<lparr>currentWarcinfoRecordID := recordID\<rparr> else s))"

text \<open>
  The statement \<^verbatim>\<open>if Compression != "" { if GZIP { gzipWriter.Close() } else if ZSTD
  { zstdWriter.Close() } }\<close>, on the writer the variable \<^verbatim>\<open>warcWriter\<close> holds.
\<close>

definition closeCompression :: "RotatorSettings \<Rightarrow> wstate \<Rightarrow> wstate" where
  "closeCompression st s =
     (if Compression st \<noteq> [] then
        (if Compression st = ''GZIP'' then emit (CloseCompression (wid (warcWriter s))) s
         else if Compression st = ''ZSTD'' then emit (CloseCompression (wid (warcWriter s))) s
         else s)
      else s)"

text \<open>The same statement after the first info record, where each branch makes a new writer.\<close>

definition closeAndReopen :: "rotEnv \<Rightarrow> RotatorSettings \<Rightarrow> wstate \<Rightarrow> wstate" where
  "closeAndReopen env st s =
     (if Compression st \<noteq> [] then
        (if Compression st = ''GZIP''
         then steps [emit (CloseCompression (wid (warcWriter s))), newWriter env st] s
         else if Compression st = ''ZSTD''
         then steps [emit (CloseCompression (wid (warcWriter s))), newWriter env st] s
         else s)
      else s)"

definition flushWriter :: "wstate \<Rightarrow> wstate" where
  "flushWriter s = emit (Flush (wid (warcWriter s))) s"

definition closeFile :: "wstate \<Rightarrow> wstate" where
  "closeFile s = emit (CloseFile (warcFile s)) s"

definition renameOpen :: "rotEnv \<Rightarrow> RotatorSettings \<Rightarrow> wstate \<Rightarrow> wstate" where
  "renameOpen env st s =
     (let old = OutputDirectory st @ currentFileName s;
          new = TrimSuffix (OutputDirectory st @ currentFileName s) ''.open'' in
      case osRename env (trace s) old new of
        Some err \<Rightarrow> panic err s
      | None \<Rightarrow> emit (Rename old new) s)"

definition incrementSerial :: "wstate \<Rightarrow> wstate" where
  "incrementSerial s = s\<lparr>serial := serial s + 1\<rparr>"

text \<open>The two \<^verbatim>\<open>Header.Set\<close> calls on a record of the batch, then \<^verbatim>\<open>WriteRecord\<close>.\<close>

definition stamp :: "string \<Rightarrow> string \<Rightarrow> Record \<Rightarrow> Record" where
  "stamp captureTime infoID record =
     setFields record
       [(''WARC-Date'', captureTime),
        (''WARC-Warcinfo-ID'', ''<urn:uuid:'' @ infoID @ ''>'')]"

definition writeStamped :: "rotEnv \<Rightarrow> RecordBatch \<Rightarrow> Record \<Rightarrow> wstate \<Rightarrow> wstate" where
  "writeStamped env recordBatch record s =
     (let record' = stamp (CaptureTime recordBatch) (currentWarcinfoRecordID s) record in
      case WriteRecord env (trace s) record' of
        Some err \<Rightarrow> panic err s
      | None \<Rightarrow> emit (WriteRec (wid (warcWriter s)) (wfile (warcWriter s)) record') s)"

subsection \<open>recordWriter\<close>

text \<open>From the declaration of \<^verbatim>\<open>currentFileName\<close> to the statement before the loop.\<close>

definition startFile :: "rotEnv \<Rightarrow> RotatorSettings \<Rightarrow> wstate \<Rightarrow> wstate" where
  "startFile env st =
     steps [nameFile env st, createFile env st, newWriter env st,
            writeInfoRecord env st True, closeAndReopen env st]"

text \<open>The block run when \<^verbatim>\<open>isFileSizeExceeded\<close> holds, in the order of its statements.\<close>

definition rotate :: "rotEnv \<Rightarrow> RotatorSettings \<Rightarrow> wstate \<Rightarrow> wstate" where
  "rotate env st =
     steps [renameOpen env st, flushWriter, closeCompression st, closeFile,
            incrementSerial, nameFile env st, createFile env st, newWriter env st,
            writeInfoRecord env st False, closeCompression st]"

definition rotateIfExceeded :: "rotEnv \<Rightarrow> RotatorSettings \<Rightarrow> wstate \<Rightarrow> wstate" where
  "rotateIfExceeded env st s =
     (if isFileSizeExceeded env (trace s) (OutputDirectory st @ currentFileName s) (WarcSize st)
      then rotate env st s else s)"

text \<open>The body of the loop over the records of a batch.\<close>

definition writeOne :: "rotEnv \<Rightarrow> RotatorSettings \<Rightarrow> RecordBatch \<Rightarrow> Record \<Rightarrow> wstate \<Rightarrow> wstate" where
  "writeOne env st recordBatch record =
     steps [newWriter env st, writeStamped env recordBatch record, closeCompression st]"

definition writeRecords :: "rotEnv \<Rightarrow> RotatorSettings \<Rightarrow> RecordBatch \<Rightarrow> wstate \<Rightarrow> wstate" where
  "writeRecords env st recordBatch = steps (map (writeOne env st recordBatch) (Records recordBatch))"

text \<open>The body of the loop over the channel.\<close>

definition handleBatch :: "rotEnv \<Rightarrow> RotatorSettings \<Rightarrow> RecordBatch \<Rightarrow> wstate \<Rightarrow> wstate" where
  "handleBatch env st recordBatch =
     steps [rotateIfExceeded env st, writeRecords env st recordBatch, flushWriter]"

text \<open>The loop over the channel, for the batches received before the channel is closed.\<close>

definition consume :: "rotEnv \<Rightarrow> RotatorSettings \<Rightarrow> RecordBatch list \<Rightarrow> wstate \<Rightarrow> wstate" where
  "consume env st batches = steps (map (handleBatch env st) batches)"

text \<open>The statements after the loop, run once the channel is closed.\<close>

definition finish :: "rotEnv \<Rightarrow> RotatorSettings \<Rightarrow> wstate \<Rightarrow> wstate" where
  "finish env st = steps [flushWriter, closeCompression st, closeFile, renameOpen env st]"

text \<open>
  The task as far as it gets on the batches received so far, the channel still open
  (\<open>running\<close>), and the whole task when the channel is closed after \<open>batches\<close> (\<open>recordWriter\<close>).
\<close>

definition running :: "rotEnv \<Rightarrow> RotatorSettings \<Rightarrow> RecordBatch list \<Rightarrow> wstate" where
  "running env st batches = steps [startFile env st, consume env st batches] initial"

definition recordWriter :: "rotEnv \<Rightarrow> RotatorSettings \<Rightarrow> RecordBatch list \<Rightarrow> wstate" where
  "recordWriter env st batches =
     steps [startFile env st, consume env st batches, finish env st] initial"

section \<open>The capturing transport\<close>

subsection \<open>connWrapper\<close>

text \<open>
  A \<^verbatim>\<open>net.Conn\<close> is the number of the connection; the nil interface is \<open>None\<close>. The fields
  of \<^verbatim>\<open>connWrapper\<close> are \<^verbatim>\<open>c\<close>, \<^verbatim>\<open>resp\<close> and \<^verbatim>\<open>req\<close>.
\<close>

record connWrapper =
  cw_c :: "nat option"
  cw_resp :: "byte list"
  cw_req :: "byte list"

datatype tevent =
    NewConnWrapper
  | NetDialed nat
  | TLSDialed nat
  | HandshakeReturned nat "string option"
  | Attached nat
  | ConnWrite nat "byte list"
  | ConnRead nat "byte list"
  | ConnClosed nat

text \<open>
  The state of one client built by \<^verbatim>\<open>foo\<close>: the one \<^verbatim>\<open>connWrapper\<close> its closures share, the
  invocations of the callback so far (oldest first, each with its four arguments), the events
  so far, and the panic that stopped the program, if one did.
\<close>

record tstate =
  cW :: connWrapper
  calls :: "(Request \<times> Response \<times> byte list \<times> byte list) list"
  tevents :: "tevent list"
  tstopped :: "fault option"

definition tpanic :: "string \<Rightarrow> tstate \<Rightarrow> tstate" where
  "tpanic e s = s\<lparr>tstopped := Some (Panic e)\<rparr>"

definition tlog :: "tevent list \<Rightarrow> tstate \<Rightarrow> tstate" where
  "tlog es s = s\<lparr>tevents := tevents s @ es\<rparr>"

text \<open>
  \<^verbatim>\<open>Write\<close>, \<^verbatim>\<open>Read\<close> and \<^verbatim>\<open>Close\<close> of the wrapper. \<open>data\<close> is what the connection's
  \<^verbatim>\<open>Read\<close> put into the buffer, \<open>b[:n]\<close>. A call on a wrapper whose \<^verbatim>\<open>c\<close> is nil dereferences
  nil. \<^verbatim>\<open>Close\<close> closes the connection and leaves the field \<^verbatim>\<open>c\<close> as it is.
\<close>

definition cwWrite :: "byte list \<Rightarrow> tstate \<Rightarrow> tstate" where
  "cwWrite b s =
     (let s1 = s\<lparr>cW := (cW s)\<lparr>cw_req := cw_req (cW s) @ b\<rparr>\<rparr> in
      case cw_c (cW s1) of
        None \<Rightarrow> tpanic ''nil pointer dereference'' s1
      | Some conn \<Rightarrow> tlog [ConnWrite conn b] s1)"

definition cwRead :: "byte list \<Rightarrow> tstate \<Rightarrow> tstate" where
  "cwRead data s =
     (case cw_c (cW s) of
        None \<Rightarrow> tpanic ''nil pointer dereference'' s
      | Some conn \<Rightarrow>
          tlog [ConnRead conn data] (s\<lparr>cW := (cW s)\<lparr>cw_resp := cw_resp (cW s) @ data\<rparr>\<rparr>))"

definition cwClose :: "tstate \<Rightarrow> tstate" where
  "cwClose s =
     (case cw_c (cW s) of
        None \<Rightarrow> tpanic ''nil pointer dereference'' s
      | Some conn \<Rightarrow> tlog [ConnClosed conn] s)"

subsection \<open>foo: the dial functions and the redirect hook\<close>

text \<open>
  A dial function returns a connection and an error and may log events. The two the client
  wraps: the default transport's \<^verbatim>\<open>DialContext\<close>, whose outcome is a parameter, and the
  function literal that calls \<^verbatim>\<open>tls.Dial\<close> (which connects and runs the handshake) and then
  returns the connection with the result of \<^verbatim>\<open>dial.Handshake()\<close>; both outcomes are parameters.
\<close>

type_synonym DialFunc = "tstate \<Rightarrow> (nat option \<times> string option) \<times> tstate"

definition plainDial :: "string + nat \<Rightarrow> DialFunc" where
  "plainDial outcome s =
     (case outcome of
        Inl err \<Rightarrow> ((None, Some err), s)
      | Inr conn \<Rightarrow> ((Some conn, None), tlog [NetDialed conn] s))"

definition tlsDial :: "string + nat \<Rightarrow> string option \<Rightarrow> DialFunc" where
  "tlsDial outcome handshake s =
     (case outcome of
        Inl err \<Rightarrow> ((None, Some err), s)
      | Inr dial \<Rightarrow> ((Some dial, handshake), tlog [TLSDialed dial, HandshakeReturned dial handshake] s))"

text \<open>
  What a wrapped dial function gives the transport: the error of the dial, a panic, or the
  pointer \<^verbatim>\<open>cW\<close>, the one wrapper of the client.
\<close>

datatype dialResult = DialError string | DialPanicked | ReturnedcW

definition wrap :: "DialFunc \<Rightarrow> tstate \<Rightarrow> dialResult \<times> tstate" where
  "wrap df s =
     (case df s of
        ((conn, Some err), s1) \<Rightarrow> (DialError err, s1)
      | ((conn, None), s1) \<Rightarrow>
          (if cw_c (cW s1) \<noteq> None
           then (DialPanicked, tpanic ''connWrapper already contains a connection'' s1)
           else (ReturnedcW, tlog (case conn of None \<Rightarrow> [] | Some n \<Rightarrow> [Attached n])
                               (s1\<lparr>cW := (cW s1)\<lparr>cw_c := conn\<rparr>\<rparr>))))"

text \<open>
  \<^verbatim>\<open>triggerCallback\<close>: the callback is invoked with the bytes of the two buffers, and the
  buffers are reset. \<^verbatim>\<open>checkRedirect\<close> is given the upcoming request, the response that
  redirected to it (the request's field \<^verbatim>\<open>Response\<close>) and the requests made so far.
\<close>

definition triggerCallback :: "Request \<Rightarrow> Response \<Rightarrow> tstate \<Rightarrow> tstate" where
  "triggerCallback rq rs s =
     s\<lparr>calls := calls s @ [(rq, rs, cw_req (cW s), cw_resp (cW s))],
       cW := (cW s)\<lparr>cw_req := [], cw_resp := []\<rparr>\<rparr>"

definition checkRedirect :: "Request \<Rightarrow> Response \<Rightarrow> Request list \<Rightarrow> tstate \<Rightarrow> string option \<times> tstate" where
  "checkRedirect rq rqResponse via s =
     (let s1 = triggerCallback rq rqResponse s in
      if length via \<ge> 10 then (Some ''stopped after 10 redirects'', s1) else (None, s1))"

text \<open>The client as \<^verbatim>\<open>foo\<close> returns it: one wrapper with two empty buffers and no connection.\<close>

definition foo :: tstate where
  "foo = \<lparr>cW = \<lparr>cw_c = None, cw_resp = [], cw_req = []\<rparr>, calls = [],
           tevents = [NewConnWrapper], tstopped = None\<rparr>"

definition NewRoundTripper :: tstate where
  "NewRoundTripper = foo"

subsection \<open>The client's Do and RoundTrip\<close>

text \<open>
  The library's \<^verbatim>\<open>http.Client.Do\<close>, as its documentation gives it: the client sends the
  request; when the response is a redirect it builds the upcoming request, calls
  \<^verbatim>\<open>CheckRedirect\<close> with it and the requests made so far, oldest first, and follows the
  redirect unless the hook returns an error, which ends the request (the library wraps the
  error with the method and the URL; the model keeps the hook's text); a response that is no
  redirect is returned.
  The network is a script of hops, one per request sent: whether the transport dials for it
  (and how the dial ends), the bytes it writes to and reads from the connection, the response,
  and the upcoming request when the response is a redirect.
\<close>

datatype dialSpec = PlainDial "string + nat" | TLSDial "string + nat" "string option"

record hop =
  dialing :: "dialSpec option"
  sent :: "byte list"
  received :: "byte list"
  response :: Response
  redirect :: "Request option"

datatype outcome = Returned Response | Failed string | Panicked

fun dialWith :: "dialSpec \<Rightarrow> tstate \<Rightarrow> dialResult \<times> tstate" where
  "dialWith (PlainDial outcome) s = wrap (plainDial outcome) s"
| "dialWith (TLSDial outcome handshake) s = wrap (tlsDial outcome handshake) s"

text \<open>One request on the wire: the dial if the transport makes one, then write and read.\<close>

definition exchange :: "hop \<Rightarrow> tstate \<Rightarrow> tstate" where
  "exchange h s =
     (let s1 = cwWrite (sent h) s in
      if tstopped s1 \<noteq> None then s1 else cwRead (received h) s1)"

definition send :: "hop \<Rightarrow> tstate \<Rightarrow> dialResult \<times> tstate" where
  "send h s =
     (case dialing h of
        None \<Rightarrow> (ReturnedcW, exchange h s)
      | Some spec \<Rightarrow>
          (case dialWith spec s of
             (ReturnedcW, s1) \<Rightarrow> (ReturnedcW, exchange h s1)
           | (r, s1) \<Rightarrow> (r, s1)))"

fun Do :: "Request list \<Rightarrow> Request \<Rightarrow> hop list \<Rightarrow> tstate \<Rightarrow> outcome \<times> tstate" where
  "Do via rq [] s = (Failed ''EOF'', s)"
| "Do via rq (h # hs) s =
     (case send h s of
        (DialError err, s1) \<Rightarrow> (Failed err, s1)
      | (DialPanicked, s1) \<Rightarrow> (Panicked, s1)
      | (ReturnedcW, s1) \<Rightarrow>
          if tstopped s1 \<noteq> None then (Panicked, s1)
          else (case redirect h of
                  None \<Rightarrow> (Returned (response h), s1)
                | Some upcoming \<Rightarrow>
                    (case checkRedirect upcoming (response h) (via @ [rq]) s1 of
                       (Some err, s2) \<Rightarrow> (Failed err, s2)
                     | (None, s2) \<Rightarrow> Do (via @ [rq]) upcoming hs s2)))"

text \<open>
  \<^verbatim>\<open>roundTripper.RoundTrip\<close>: the result of \<^verbatim>\<open>t.c.Do(req)\<close>, error or response; the call of
  the callback after it is commented out in the source.
\<close>

definition RoundTrip :: "Request \<Rightarrow> hop list \<Rightarrow> tstate \<Rightarrow> outcome \<times> tstate" where
  "RoundTrip rq script t = Do [] rq script t"

section \<open>Properties\<close>

text \<open>The four bytes of \<open>data\<close> at index \<open>i\<close> are the delimiter CR LF CR LF.\<close>

definition delimAt :: "byte list \<Rightarrow> nat \<Rightarrow> bool" where
  "delimAt data i = (take 4 (drop i data) = pattern)"

text \<open>A batch of one exchange: two records, the response and then the request.\<close>

definition isExchange :: "RecordBatch \<Rightarrow> bool" where
  "isExchange batch =
     (case Records batch of
        [first, second] \<Rightarrow>
          Header first ''WARC-Type'' = Some ''response'' \<and> Header second ''WARC-Type'' = Some ''request''
      | _ \<Rightarrow> False)"

text \<open>The serial numbers given to \<^verbatim>\<open>generateWarcFileName\<close>, in the order of the calls.\<close>

fun serialOf :: "event \<Rightarrow> 64 word list" where
  "serialOf (GenerateName n name) = [n]"
| "serialOf e = []"

definition serials :: "event list \<Rightarrow> 64 word list" where
  "serials tr = concat (map serialOf tr)"

text \<open>
  What the proofs about serial numbers look at in a state, and the invariant: the serials used
  so far are 1, ..., k, the variable \<^verbatim>\<open>serial\<close> holds k, and k is between 1 and \<open>n\<close>.
\<close>

definition sview :: "wstate \<Rightarrow> 64 word \<times> 64 word list" where
  "sview s = (serial s, serials (trace s))"

definition counted :: "nat \<Rightarrow> 64 word \<times> 64 word list \<Rightarrow> bool" where
  "counted k v = (v = (of_nat k, map of_nat [1..<Suc k]))"

definition serialsUpTo :: "nat \<Rightarrow> wstate \<Rightarrow> bool" where
  "serialsUpTo n s = (\<exists>k. 1 \<le> k \<and> k \<le> n \<and> counted k (sview s))"

subsection \<open>A run with one rotation\<close>

text \<open>
  An environment in which no call fails, the two info records get the identifiers \<open>info-1\<close>
  and \<open>info-2\<close>, and the first file is over the size once a record has been written to it.
\<close>

fun isRecordWrite :: "event \<Rightarrow> bool" where
  "isRecordWrite (WriteRec w f r) = True"
| "isRecordWrite e = False"

definition demoEnv :: rotEnv where
  "demoEnv = \<lparr>
     generateWarcFileName = (\<lambda>tr prefix compression n.
        prefix @ (if n = 1 then ''-1.warc.open'' else ''-2.warc.open'')),
     osCreate = (\<lambda>tr path. None),
     NewWriter = (\<lambda>tr name compression. None),
     WriteInfoRecord = (\<lambda>tr content. Inr (if length tr < 4 then ''info-1'' else ''info-2'')),
     WriteRecord = (\<lambda>tr record. None),
     isFileSizeExceeded = (\<lambda>tr path size. path = ''out/A-1.warc.open'' \<and> list_ex isRecordWrite tr),
     osRename = (\<lambda>tr old new. None)\<rparr>"

definition demoSettings :: "string \<Rightarrow> RotatorSettings" where
  "demoSettings compression = \<lparr>WarcinfoContent = Map.empty, Prefix = ''A'', Compression = compression,
     WarcSize = 1, OutputDirectory = ''out/''\<rparr>"

definition demoBatch :: "string \<Rightarrow> RecordBatch" where
  "demoBatch t = \<lparr>Records = [NewRecord\<lparr>Content := [0x61]\<rparr>], CaptureTime = t\<rparr>"

subsection \<open>Frames and back-references\<close>

text \<open>
  The writer a write event goes through. A trace is framed when every write of a record is
  followed at once by the close of the compression stream of its writer.
\<close>

fun writerOf :: "event \<Rightarrow> nat list" where
  "writerOf (WriteInfo w f i) = [w]"
| "writerOf (WriteRec w f r) = [w]"
| "writerOf e = []"

definition writersUsed :: "event list \<Rightarrow> nat list" where
  "writersUsed tr = concat (map writerOf tr)"

fun framed :: "event list \<Rightarrow> bool" where
  "framed [] = True"
| "framed [e] = (writerOf e = [])"
| "framed (e # e' # es) =
     ((case writerOf e of [] \<Rightarrow> True | w # ws \<Rightarrow> e' = CloseCompression w) \<and> framed (e' # es))"

text \<open>
  The invariant of the proofs about frames: the trace is framed, no writer has two writes, and
  every writer that has written was numbered below the counter.
\<close>

definition oneRecordPerFrame :: "wstate \<Rightarrow> bool" where
  "oneRecordPerFrame s =
     (framed (trace s) \<and> distinct (writersUsed (trace s))
      \<and> list_all (\<lambda>w. w < writers s) (writersUsed (trace s)))"

definition compressed :: "RotatorSettings \<Rightarrow> bool" where
  "compressed st = (Compression st = ''GZIP'' \<or> Compression st = ''ZSTD'')"

text \<open>
  The identifier of the info record written first to the file with handle \<open>f\<close>, the
  \<^verbatim>\<open>WARC-Warcinfo-ID\<close> fields of the records written to it, and whether each of them refers
  to that identifier.
\<close>

fun infoIdOf :: "event list \<Rightarrow> nat \<Rightarrow> string option" where
  "infoIdOf [] f = None"
| "infoIdOf (WriteInfo w f' i # es) f = (if f' = f then Some i else infoIdOf es f)"
| "infoIdOf (e # es) f = infoIdOf es f"

fun backrefsTo :: "event list \<Rightarrow> nat \<Rightarrow> string option list" where
  "backrefsTo [] f = []"
| "backrefsTo (WriteRec w f' r # es) f =
     (if f' = f then Header r ''WARC-Warcinfo-ID'' # backrefsTo es f else backrefsTo es f)"
| "backrefsTo (e # es) f = backrefsTo es f"

definition backrefsOK :: "event list \<Rightarrow> nat \<Rightarrow> bool" where
  "backrefsOK tr f =
     (case infoIdOf tr f of
        None \<Rightarrow> backrefsTo tr f = []
      | Some i \<Rightarrow> list_all (\<lambda>v. v = Some (''<urn:uuid:'' @ i @ ''>'')) (backrefsTo tr f))"

subsection \<open>Records written\<close>

text \<open>The records given to \<^verbatim>\<open>WriteRecord\<close>, as they were when written, oldest first.\<close>

fun recordOf :: "event \<Rightarrow> Record list" where
  "recordOf (WriteRec w f r) = [r]"
| "recordOf e = []"

definition written :: "event list \<Rightarrow> Record list" where
  "written tr = concat (map recordOf tr)"

text \<open>A request line followed by the delimiter, and an exchange without bodies.\<close>

definition demoRaw :: "byte list" where
  "demoRaw = [0x47, 0x0d, 0x0a, 0x0d, 0x0a]"

definition demoRequest :: Request where
  "demoRequest = \<lparr>URL = ''http://a/'', Host = ''a'', ReqBody = None\<rparr>"

definition demoResponse :: Response where
  "demoResponse = \<lparr>RespBody = None, RespRequest = Some demoRequest\<rparr>"

subsection \<open>Dials and operations on a client\<close>

text \<open>
  What a dial is given by the network: whether the underlying dial, for TLS with its
  handshake, returns without error; the connection it returns; the events it logs; the error
  it returns.
\<close>

fun dialsFine :: "dialSpec \<Rightarrow> bool" where
  "dialsFine (PlainDial (Inr conn)) = True"
| "dialsFine (TLSDial (Inr conn) None) = True"
| "dialsFine spec = False"

fun dialedConn :: "dialSpec \<Rightarrow> nat option" where
  "dialedConn (PlainDial (Inr conn)) = Some conn"
| "dialedConn (TLSDial (Inr conn) h) = Some conn"
| "dialedConn spec = None"

fun dialEvents :: "dialSpec \<Rightarrow> tevent list" where
  "dialEvents (PlainDial (Inr conn)) = [NetDialed conn]"
| "dialEvents (TLSDial (Inr conn) h) = [TLSDialed conn, HandshakeReturned conn h]"
| "dialEvents spec = []"

fun dialError :: "dialSpec \<Rightarrow> string option" where
  "dialError (PlainDial (Inl err)) = Some err"
| "dialError (TLSDial (Inl err) h) = Some err"
| "dialError (TLSDial (Inr conn) (Some err)) = Some err"
| "dialError spec = None"

fun isAttached :: "tevent \<Rightarrow> bool" where
  "isAttached (Attached conn) = True"
| "isAttached e = False"

text \<open>
  The number of \<^verbatim>\<open>connWrapper\<close> values made, and of connections attached to one.
\<close>

definition wrappersMade :: "tevent list \<Rightarrow> nat" where
  "wrappersMade tr = length (filter (\<lambda>e. e = NewConnWrapper) tr)"

definition attachments :: "tevent list \<Rightarrow> nat" where
  "attachments tr = length (filter isAttached tr)"

text \<open>
  What the transport and the client's callers can do with the client, in any order: dial, use
  the wrapper as a connection, fire the callback, make a request. Nothing happens after a
  panic.
\<close>

datatype tOp =
    OpDial dialSpec
  | OpWrite "byte list"
  | OpRead "byte list"
  | OpClose
  | OpCallback Request Response
  | OpRoundTrip Request "hop list"

fun perform :: "tOp \<Rightarrow> tstate \<Rightarrow> tstate" where
  "perform (OpDial spec) s = (if tstopped s = None then snd (dialWith spec s) else s)"
| "perform (OpWrite b) s = (if tstopped s = None then cwWrite b s else s)"
| "perform (OpRead data) s = (if tstopped s = None then cwRead data s else s)"
| "perform OpClose s = (if tstopped s = None then cwClose s else s)"
| "perform (OpCallback rq rs) s = (if tstopped s = None then triggerCallback rq rs s else s)"
| "perform (OpRoundTrip rq script) s = (if tstopped s = None then snd (RoundTrip rq script s) else s)"

text \<open>
  A hop that sends and receives \<open>demoRaw\<close>.
\<close>

definition demoHop :: "dialSpec option \<Rightarrow> Request option \<Rightarrow> hop" where
  "demoHop d r = \<lparr>dialing = d, sent = demoRaw, received = demoRaw, response = demoResponse, redirect = r\<rparr>"

text \<open>
  The invariant of the proofs about the wrapper's connection: one attachment has been logged
  exactly when the field \<^verbatim>\<open>c\<close> is set, and the field still holds \<open>c0\<close> if that is a
  connection.
\<close>

definition held :: "nat option \<Rightarrow> tstate \<Rightarrow> bool" where
  "held c0 s =
     (attachments (tevents s) = (if cw_c (cW s) = None then 0 else 1)
      \<and> (c0 = None \<or> cw_c (cW s) = c0))"





subsection \<open>Files and the names they are created under\<close>

text \<open>
  The paths given to \<^verbatim>\<open>os.Create\<close>, in the order of the files created; the serial numbers
  given to \<^verbatim>\<open>generateWarcFileName\<close>, each with the path made of the output directory and the
  name returned; and the number of renames. While the channel is open every rename is the
  first statement of a rotation.
\<close>

fun pathOf :: "event \<Rightarrow> string list" where
  "pathOf (Create fd path) = [path]"
| "pathOf e = []"

definition createdPaths :: "event list \<Rightarrow> string list" where
  "createdPaths tr = concat (map pathOf tr)"

fun generatedOf :: "string \<Rightarrow> event \<Rightarrow> (64 word \<times> string) list" where
  "generatedOf dir (GenerateName n name) = [(n, dir @ name)]"
| "generatedOf dir e = []"

definition generated :: "string \<Rightarrow> event list \<Rightarrow> (64 word \<times> string) list" where
  "generated dir tr = concat (map (generatedOf dir) tr)"

fun isRename :: "event \<Rightarrow> bool" where
  "isRename (Rename old new) = True"
| "isRename e = False"

definition rotations :: "event list \<Rightarrow> nat" where
  "rotations tr = length (filter isRename tr)"

text \<open>
  Every name in the trace is what \<^verbatim>\<open>generateWarcFileName\<close> returned for the prefix and
  compression of the settings and the serial logged with it, called on the events before.
\<close>

fun namedBy :: "rotEnv \<Rightarrow> RotatorSettings \<Rightarrow> event list \<Rightarrow> event list \<Rightarrow> bool" where
  "namedBy env st before [] = True"
| "namedBy env st before (GenerateName n name # es) =
     (name = generateWarcFileName env before (Prefix st) (Compression st) n
      \<and> namedBy env st (before @ [GenerateName n name]) es)"
| "namedBy env st before (e # es) = namedBy env st (before @ [e]) es"

text \<open>
  Events that neither name nor create a file (calm), nor rename one (quiet); a statement is
  quiet when it only adds quiet events.
\<close>

fun calmEvent :: "event \<Rightarrow> bool" where
  "calmEvent (GenerateName n name) = False"
| "calmEvent (Create fd path) = False"
| "calmEvent e = True"

definition quietEvent :: "event \<Rightarrow> bool" where
  "quietEvent e = (calmEvent e \<and> \<not> isRename e)"

definition quiet :: "(wstate \<Rightarrow> wstate) \<Rightarrow> bool" where
  "quiet a = (\<forall>s. \<exists>es. trace (a s) = trace s @ es \<and> list_all quietEvent es)"

text \<open>
  The invariant of the proofs about files. While the task runs, the files created are those
  named, in order, and their number plus \<open>d\<close> is one more than the number of renames (\<open>d\<close> is 1
  between the rename of a rotation and the creation of the next file, 0 otherwise). After a
  panic, at most the last name has no file.
\<close>

definition filesInv :: "rotEnv \<Rightarrow> RotatorSettings \<Rightarrow> nat \<Rightarrow> wstate \<Rightarrow> bool" where
  "filesInv env st d s =
     (let c = createdPaths (trace s); g = generated (OutputDirectory st) (trace s);
          r = rotations (trace s) in
      namedBy env st [] (trace s) \<and>
      (if stopped s = None then map snd g = c \<and> length c + d = Suc r
       else take (length c) (map snd g) = c \<and> length g \<le> Suc (length c) \<and> length c \<le> Suc r))"

definition namesInv :: "rotEnv \<Rightarrow> RotatorSettings \<Rightarrow> wstate \<Rightarrow> bool" where
  "namesInv env st s =
     (namedBy env st [] (trace s)
      \<and> createdPaths (trace s)
          = take (length (createdPaths (trace s))) (map snd (generated (OutputDirectory st) (trace s)))
      \<and> length (generated (OutputDirectory st) (trace s)) \<le> Suc (length (createdPaths (trace s)))
      \<and> (stopped s = None \<longrightarrow>
            length (createdPaths (trace s)) = length (generated (OutputDirectory st) (trace s))))"


section \<open>Verification\<close>

subsection \<open>The scan for the delimiter\<close>

lemma pattern_length: "length pattern = 4"
  by (simp add: pattern_def)

lemma delimAt_bound: "delimAt data p \<Longrightarrow> p + 4 \<le> length data"
proof -
  assume h: "delimAt data p"
  have "length (take 4 (drop p data)) = 4" using h pattern_length by (simp add: delimAt_def)
  then show ?thesis by simp
qed

lemma scan_absent:
  "(\<And>j. i \<le> j \<Longrightarrow> \<not> delimAt data j) \<Longrightarrow>
   scanPattern data i = (if i < length data then Inl (Panic ''cant find header data'') else Inr 0)"
proof (induction data i rule: scanPattern.induct)
  case (1 data i)
  show ?case
  proof (cases "i < length data")
    case False
    then show ?thesis by (simp add: scanPattern.simps [of data i])
  next
    case True
    show ?thesis
    proof (cases "length data < i + 4")
      case True
      with \<open>i < length data\<close> show ?thesis by (simp add: scanPattern.simps [of data i])
    next
      case False
      have nm: "take 4 (drop i data) \<noteq> pattern" using "1.prems" [of i] by (simp add: delimAt_def)
      have rec: "scanPattern data (Suc i) =
        (if Suc i < length data then Inl (Panic ''cant find header data'') else Inr 0)"
        using "1.IH" [OF True False nm] "1.prems" by simp
      from False have "Suc i < length data" by simp
      with rec True False nm show ?thesis by (simp add: scanPattern.simps [of data i])
    qed
  qed
qed

lemma scan_first:
  "delimAt data p \<Longrightarrow> i \<le> p \<Longrightarrow> (\<And>j. i \<le> j \<Longrightarrow> j < p \<Longrightarrow> \<not> delimAt data j) \<Longrightarrow>
   scanPattern data i = Inr (p + 4)"
proof (induction data i rule: scanPattern.induct)
  case (1 data i)
  have bound: "p + 4 \<le> length data" using "1.prems"(1) by (rule delimAt_bound)
  with \<open>i \<le> p\<close> have il: "i < length data" and nl: "\<not> length data < i + 4" by simp_all
  show ?case
  proof (cases "i = p")
    case True
    with il nl "1.prems"(1) show ?thesis by (subst scanPattern.simps) (simp add: delimAt_def)
  next
    case False
    with \<open>i \<le> p\<close> have lt: "i < p" by simp
    have nm: "take 4 (drop i data) \<noteq> pattern" using "1.prems"(3) [of i] lt by (simp add: delimAt_def)
    have "scanPattern data (Suc i) = Inr (p + 4)"
      using "1.IH" [OF il nl nm "1.prems"(1)] lt "1.prems"(3) by simp
    with il nl nm show ?thesis by (simp add: scanPattern.simps [of data i])
  qed
qed

lemma headers_absent:
  assumes "\<forall>i. \<not> delimAt data i"
  shows "headersFromRawData R r data = Inl (Panic ''cant find header data'')"
proof -
  have "scanPattern data 0 = (if 0 < length data then Inl (Panic ''cant find header data'') else Inr 0)"
    using assms by (intro scan_absent) simp
  then show ?thesis by (simp add: headersFromRawData_def)
qed

lemma block_has_LF:
  assumes "delimAt data p"
  shows "take (p + 4) data \<noteq> []"
  using delimAt_bound [OF assms] by auto

lemma headers_present:
  assumes "delimAt data p" and "\<forall>i<p. \<not> delimAt data i"
  shows "headersFromRawData R r data =
     (case R (drop 1 (dropWhile (\<lambda>b. b \<noteq> 0x0a) (take (p + 4) data))) of
        Inl e \<Rightarrow> Inl (Panic e)
      | Inr mimeHeader \<Rightarrow> Inr (setJoined r mimeHeader))"
proof -
  have "scanPattern data 0 = Inr (p + 4)"
    using assms by (intro scan_first) simp_all
  then have "headersFromRawData R r data = parseHeaderBlock R r (take (p + 4) data)"
    by (simp add: headersFromRawData_def)
  then show ?thesis
    using block_has_LF [OF assms(1)] by (simp add: parseHeaderBlock_def ReadLine_def)
qed

lemma callback_resp_absent:
  "headersFromRawData R NewRecord respData = Inl e \<Longrightarrow>
   rawResponseCallback R G now rq rs reqData respData = Inl e"
  by (simp add: rawResponseCallback_def Let_def)

lemma callback_req_absent:
  "headersFromRawData R NewRecord reqData = Inl e \<Longrightarrow>
   \<exists>e'. rawResponseCallback R G now rq rs reqData respData = Inl e'"
  by (simp add: rawResponseCallback_def Let_def split: sum.splits)

text \<open>
  Claim C9. Raw bytes that hold the delimiter CR LF CR LF at no index make
  \<^verbatim>\<open>headersFromRawData\<close> panic, and the callback that is given them for the response or for
  the request panics too and sends no batch. When the delimiter is there, the bytes up to and
  including its first occurrence are the header block: its first line is dropped and the rest
  goes to the MIME header parser, whose fields are set on the record.
\<close>

theorem headersFromRawData_delimiter:
  "((\<forall>i. \<not> delimAt data i) \<longrightarrow>
      headersFromRawData R r data = Inl (Panic ''cant find header data'')
      \<and> (\<exists>e. rawResponseCallback R G now rq rs reqData data = Inl e)
      \<and> (\<exists>e. rawResponseCallback R G now rq rs data respData = Inl e))
   \<and> (\<forall>p. delimAt data p \<and> (\<forall>i<p. \<not> delimAt data i) \<longrightarrow>
        headersFromRawData R r data = parseHeaderBlock R r (take (p + 4) data)
        \<and> parseHeaderBlock R r (take (p + 4) data) =
            (case R (drop 1 (dropWhile (\<lambda>b. b \<noteq> 0x0a) (take (p + 4) data))) of
               Inl e \<Rightarrow> Inl (Panic e)
             | Inr mimeHeader \<Rightarrow> Inr (setJoined r mimeHeader)))"
proof (intro conjI impI allI)
  assume a: "\<forall>i. \<not> delimAt data i"
  show "headersFromRawData R r data = Inl (Panic ''cant find header data'')"
    using a by (rule headers_absent)
  show "\<exists>e. rawResponseCallback R G now rq rs reqData data = Inl e"
    using callback_resp_absent [OF headers_absent [OF a]] by blast
  show "\<exists>e. rawResponseCallback R G now rq rs data respData = Inl e"
    using callback_req_absent [OF headers_absent [OF a]] by blast
next
  fix p
  assume a: "delimAt data p \<and> (\<forall>i<p. \<not> delimAt data i)"
  then have "scanPattern data 0 = Inr (p + 4)"
    by (intro scan_first) simp_all
  then show "headersFromRawData R r data = parseHeaderBlock R r (take (p + 4) data)"
    by (simp add: headersFromRawData_def)
  show "parseHeaderBlock R r (take (p + 4) data) =
            (case R (drop 1 (dropWhile (\<lambda>b. b \<noteq> 0x0a) (take (p + 4) data))) of
               Inl e \<Rightarrow> Inl (Panic e)
             | Inr mimeHeader \<Rightarrow> Inr (setJoined r mimeHeader))"
    using block_has_LF [of data p] a by (simp add: parseHeaderBlock_def ReadLine_def)
qed

theorem headersFromRawData_delimiter_witness:
  "(\<forall>i. \<not> delimAt [0x41, 0x42] i)
   \<and> headersFromRawData (\<lambda>rest. Inr [(''K'', [''a'', ''b''])]) NewRecord [0x41, 0x42]
       = Inl (Panic ''cant find header data'')
   \<and> delimAt [0x47, 0x0d, 0x0a, 0x0d, 0x0a, 0x58] 1
   \<and> \<not> delimAt [0x47, 0x0d, 0x0a, 0x0d, 0x0a, 0x58] 0
   \<and> headersFromRawData (\<lambda>rest. Inr [(''K'', [''a'', ''b''])]) NewRecord [0x47, 0x0d, 0x0a, 0x0d, 0x0a, 0x58]
       = Inr (NewRecord\<lparr>Header := [''K'' \<mapsto> ''a,b'']\<rparr>)"
proof -
  have none: "\<forall>i. \<not> delimAt [0x41, 0x42] i"
    using delimAt_bound [of "[0x41, 0x42]"] by fastforce
  have at1: "delimAt [0x47, 0x0d, 0x0a, 0x0d, 0x0a, 0x58] 1"
    by (simp add: delimAt_def pattern_def)
  have not0: "\<not> delimAt [0x47, 0x0d, 0x0a, 0x0d, 0x0a, 0x58] 0"
    by (simp add: delimAt_def pattern_def)
  have first: "\<forall>i<1. \<not> delimAt [0x47, 0x0d, 0x0a, 0x0d, 0x0a, 0x58] i"
    using not0 by simp
  note main = headersFromRawData_delimiter
  have a: "headersFromRawData (\<lambda>rest. Inr [(''K'', [''a'', ''b''])]) NewRecord [0x41, 0x42]
       = Inl (Panic ''cant find header data'')"
    using main [of "[0x41, 0x42]"] none by blast
  have b: "headersFromRawData (\<lambda>rest. Inr [(''K'', [''a'', ''b''])]) NewRecord [0x47, 0x0d, 0x0a, 0x0d, 0x0a, 0x58]
       = Inr (NewRecord\<lparr>Header := [''K'' \<mapsto> ''a,b'']\<rparr>)"
  proof -
    let ?d = "[0x47, 0x0d, 0x0a, 0x0d, 0x0a, 0x58] :: byte list"
    let ?R = "\<lambda>rest :: byte list. Inr [(''K'', [''a'', ''b''])] :: string + (string \<times> string list) list"
    have "headersFromRawData ?R NewRecord ?d =
            (case ?R (drop 1 (dropWhile (\<lambda>b. b \<noteq> 0x0a) (take (1 + 4) ?d))) of
               Inl e \<Rightarrow> Inl (Panic e)
             | Inr mimeHeader \<Rightarrow> Inr (setJoined NewRecord mimeHeader))"
      using main [of ?d ?R NewRecord] at1 first by (metis (no_types, lifting))
    then show ?thesis by (simp add: setJoined_def Set_def NewRecord_def)
  qed
  show ?thesis using none a at1 not0 b by blast
qed

subsection \<open>Sequences of statements\<close>

lemma steps_stopped: "stopped s \<noteq> None \<Longrightarrow> steps as s = s"
  by (cases as) auto

lemma steps_append: "steps (as @ bs) s = steps bs (steps as s)"
  by (induction as arbitrary: s) (simp_all add: steps_stopped)

lemma steps_invariant:
  assumes "\<And>a s. a \<in> set as \<Longrightarrow> stopped s = None \<Longrightarrow> I s \<Longrightarrow> I (a s)" and "I s"
  shows "I (steps as s)"
  using assms by (induction as arbitrary: s) auto

subsection \<open>Serial numbers\<close>

lemma serials_snoc: "serials (tr @ [e]) = serials tr @ serialOf e"
  by (simp add: serials_def)

lemma sview_createFile: "sview (createFile env st s) = sview s"
  by (simp add: sview_def createFile_def emit_def panic_def serials_snoc Let_def split: option.splits)

lemma sview_newWriter: "sview (newWriter env st s) = sview s"
  by (simp add: sview_def newWriter_def emit_def panic_def serials_snoc split: option.splits)

lemma sview_writeInfoRecord: "sview (writeInfoRecord env st b s) = sview s"
  by (simp add: sview_def writeInfoRecord_def emit_def panic_def serials_snoc split: sum.splits)

lemma sview_closeCompression: "sview (closeCompression st s) = sview s"
  by (simp add: sview_def closeCompression_def emit_def serials_snoc)

lemma sview_flushWriter: "sview (flushWriter s) = sview s"
  by (simp add: sview_def flushWriter_def emit_def serials_snoc)

lemma sview_closeFile: "sview (closeFile s) = sview s"
  by (simp add: sview_def closeFile_def emit_def serials_snoc)

lemma sview_renameOpen: "sview (renameOpen env st s) = sview s"
  by (simp add: sview_def renameOpen_def emit_def panic_def serials_snoc Let_def split: option.splits)

lemma sview_writeStamped: "sview (writeStamped env b r s) = sview s"
  by (simp add: sview_def writeStamped_def emit_def panic_def serials_snoc Let_def split: option.splits)

lemma sview_steps:
  assumes "\<And>a s. a \<in> set as \<Longrightarrow> sview (a s) = sview s"
  shows "sview (steps as s) = sview s"
  by (rule steps_invariant [where I = "\<lambda>s'. sview s' = sview s"]) (simp_all add: assms)

lemma sview_closeAndReopen: "sview (closeAndReopen env st s) = sview s"
  unfolding closeAndReopen_def
  by (auto intro!: sview_steps simp: sview_newWriter) (simp_all add: sview_def emit_def serials_snoc)

lemma sview_writeOne: "sview (writeOne env st b r s) = sview s"
  unfolding writeOne_def
  by (rule sview_steps) (auto simp: sview_newWriter sview_writeStamped sview_closeCompression)

lemma sview_writeRecords: "sview (writeRecords env st b s) = sview s"
  unfolding writeRecords_def
  by (rule sview_steps) (auto simp: sview_writeOne)

lemma sview_finish: "sview (finish env st s) = sview s"
  unfolding finish_def
  by (rule sview_steps) (auto simp: sview_flushWriter sview_closeCompression sview_closeFile sview_renameOpen)

lemma serialsUpTo_sview: "sview s' = sview s \<Longrightarrow> serialsUpTo n s \<Longrightarrow> serialsUpTo n s'"
  by (simp add: serialsUpTo_def)

lemma serialsUpTo_mono: "serialsUpTo n s \<Longrightarrow> n \<le> m \<Longrightarrow> serialsUpTo m s"
  by (auto simp: serialsUpTo_def)

lemma serialsUpTo_next:
  assumes "serialsUpTo n s"
  shows "serialsUpTo (Suc n) (steps [incrementSerial, nameFile env st] s)"
proof (cases "stopped s")
  case (Some e)
  then show ?thesis using assms by (simp add: serialsUpTo_mono)
next
  case None
  from assms obtain k where k: "1 \<le> k" "k \<le> n" "counted k (sview s)"
    by (auto simp: serialsUpTo_def)
  have "counted (Suc k) (sview (steps [incrementSerial, nameFile env st] s))"
    using None k(1,3)
    by (simp add: counted_def sview_def incrementSerial_def nameFile_def emit_def serials_snoc Let_def)
  with k show ?thesis unfolding serialsUpTo_def by (intro exI [of _ "Suc k"]) simp
qed

lemma rotate_split:
  "rotate env st =
     steps ([renameOpen env st, flushWriter, closeCompression st, closeFile]
            @ [incrementSerial, nameFile env st]
            @ [createFile env st, newWriter env st, writeInfoRecord env st False, closeCompression st])"
  by (simp add: rotate_def)

lemma serialsUpTo_rotate:
  assumes "serialsUpTo n s"
  shows "serialsUpTo (Suc n) (rotate env st s)"
proof -
  let ?A = "[renameOpen env st, flushWriter, closeCompression st, closeFile]"
  let ?B = "[createFile env st, newWriter env st, writeInfoRecord env st False, closeCompression st]"
  have a: "sview (steps ?A s) = sview s"
    by (rule sview_steps) (auto simp: sview_renameOpen sview_flushWriter sview_closeCompression sview_closeFile)
  have b: "\<And>t. sview (steps ?B t) = sview t"
    by (rule sview_steps) (auto simp: sview_createFile sview_newWriter sview_writeInfoRecord sview_closeCompression)
  have "serialsUpTo n (steps ?A s)" using a assms by (rule serialsUpTo_sview)
  then have "serialsUpTo (Suc n) (steps [incrementSerial, nameFile env st] (steps ?A s))"
    by (rule serialsUpTo_next)
  then have "serialsUpTo (Suc n) (steps ?B (steps [incrementSerial, nameFile env st] (steps ?A s)))"
    using b serialsUpTo_sview by blast
  then show ?thesis by (simp only: rotate_split steps_append)
qed

lemma serialsUpTo_handleBatch:
  assumes "serialsUpTo n s"
  shows "serialsUpTo (Suc n) (handleBatch env st b s)"
proof -
  have r: "serialsUpTo (Suc n) (rotateIfExceeded env st s)"
    using assms by (simp add: rotateIfExceeded_def serialsUpTo_rotate serialsUpTo_mono)
  have w: "\<And>t. sview (steps [writeRecords env st b, flushWriter] t) = sview t"
    by (rule sview_steps) (auto simp: sview_writeRecords sview_flushWriter)
  have "handleBatch env st b s = steps [writeRecords env st b, flushWriter] (steps [rotateIfExceeded env st] s)"
    unfolding handleBatch_def by (cases "stopped s") (simp_all add: steps_stopped)
  moreover have "steps [rotateIfExceeded env st] s = (if stopped s = None then rotateIfExceeded env st s else s)"
    by simp
  ultimately show ?thesis using r w assms serialsUpTo_sview serialsUpTo_mono
    by (metis le_SucI order_refl)
qed

lemma serialsUpTo_consume:
  assumes "serialsUpTo n s"
  shows "serialsUpTo (n + length bs) (consume env st bs s)"
  using assms
proof (induction bs arbitrary: n s)
  case Nil
  then show ?case by (simp add: consume_def)
next
  case (Cons b bs)
  show ?case
  proof (cases "stopped s")
    case (Some e)
    then show ?thesis using Cons.prems by (simp add: consume_def serialsUpTo_mono)
  next
    case None
    have "serialsUpTo (Suc n) (handleBatch env st b s)"
      using Cons.prems by (rule serialsUpTo_handleBatch)
    from Cons.IH [OF this] None show ?thesis by (simp add: consume_def)
  qed
qed

lemma serialsUpTo_startFile: "serialsUpTo 1 (startFile env st initial)"
proof -
  let ?B = "[createFile env st, newWriter env st, writeInfoRecord env st True, closeAndReopen env st]"
  have b: "\<And>t. sview (steps ?B t) = sview t"
    by (rule sview_steps)
       (auto simp: sview_createFile sview_newWriter sview_writeInfoRecord sview_closeAndReopen)
  have n: "serialsUpTo 1 (nameFile env st initial)"
    unfolding serialsUpTo_def
    by (intro exI [of _ 1])
       (simp add: counted_def sview_def nameFile_def emit_def serials_def initial_def Let_def)
  have "startFile env st initial = steps ?B (nameFile env st initial)"
    by (simp add: startFile_def initial_def)
  with b n show ?thesis using serialsUpTo_sview by metis
qed

lemma serialsUpTo_running: "serialsUpTo (Suc (length bs)) (running env st bs)"
proof -
  have "running env st bs = consume env st bs (startFile env st initial)"
    by (simp add: running_def initial_def steps_stopped consume_def)
  then show ?thesis using serialsUpTo_consume [OF serialsUpTo_startFile, of bs env st] by simp
qed

lemma serialsUpTo_recordWriter: "serialsUpTo (Suc (length bs)) (recordWriter env st bs)"
proof -
  have "recordWriter env st bs = steps [finish env st] (running env st bs)"
    unfolding recordWriter_def running_def
    using steps_append [of "[startFile env st, consume env st bs]" "[finish env st]" initial] by simp
  moreover have "sview (steps [finish env st] (running env st bs)) = sview (running env st bs)"
    by (rule sview_steps) (simp add: sview_finish)
  ultimately show ?thesis using serialsUpTo_running serialsUpTo_sview by metis
qed

lemma sint_of_nat_small:
  assumes "n < 2 ^ 63"
  shows "sint (of_nat n :: 64 word) = int n"
proof -
  have "- (2 ^ 63) \<le> int n" "int n < 2 ^ 63"
    using assms by (simp_all add: of_nat_less_iff [of n "2 ^ 63", where ?'a = int, simplified])
  then have "signed_take_bit 63 (int n) = int n"
    by (simp add: signed_take_bit_int_eq_self)
  then show ?thesis by (simp add: signed_of_nat)
qed

lemma sint_upto:
  assumes "k < 2 ^ 63"
  shows "map sint (map of_nat [1..<Suc k] :: 64 word list) = map int [1..<Suc k]"
proof -
  have "\<And>n. n \<in> set [1..<Suc k] \<Longrightarrow> sint (of_nat n :: 64 word) = int n"
    using assms by (intro sint_of_nat_small) auto
  then show ?thesis by simp
qed

lemma serials_count_up:
  assumes "length batches < 2 ^ 63 - 1"
    and "s = running env st batches \<or> s = recordWriter env st batches"
  shows "1 \<le> length (serials (trace s))
     \<and> length (serials (trace s)) \<le> Suc (length batches)
     \<and> map sint (serials (trace s)) = map int [1..<Suc (length (serials (trace s)))]"
proof -
  have "serialsUpTo (Suc (length batches)) s"
    using assms(2) serialsUpTo_running serialsUpTo_recordWriter by blast
  then obtain k where k: "1 \<le> k" "k \<le> Suc (length batches)"
      "serials (trace s) = map of_nat [1..<Suc k]"
    by (auto simp: serialsUpTo_def counted_def sview_def)
  have len: "length (serials (trace s)) = k" using k(3) by simp
  have "k < 2 ^ 63" using k(2) assms(1) by simp
  then have "map sint (serials (trace s)) = map int [1..<Suc k]"
    using k(3) sint_upto by simp
  with k len show ?thesis by simp
qed

lemmas rotator_defs =
  recordWriter_def running_def startFile_def consume_def handleBatch_def rotateIfExceeded_def rotate_def
  writeRecords_def writeOne_def finish_def nameFile_def createFile_def newWriter_def
  writeInfoRecord_def closeCompression_def closeAndReopen_def flushWriter_def closeFile_def
  renameOpen_def incrementSerial_def writeStamped_def stamp_def setFields_def Set_def
  emit_def panic_def initial_def TrimSuffix_def NewRecord_def Let_def

lemmas demo_defs = demoEnv_def demoSettings_def demoBatch_def

subsection \<open>One record per compression frame\<close>

lemma framed_append: "framed a \<Longrightarrow> framed (a @ b) = framed b"
proof (induction a rule: framed.induct)
  case 1
  then show ?case by simp
next
  case (2 e)
  then show ?case by (cases b) simp_all
next
  case (3 e e' es)
  then show ?case by simp
qed

lemma writersUsed_append: "writersUsed (a @ b) = writersUsed a @ writersUsed b"
  by (simp add: writersUsed_def)

lemma frame_quiet:
  assumes "oneRecordPerFrame s" and "trace s' = trace s @ es" and "writersUsed es = []" and "framed es"
    and "writers s \<le> writers s'"
  shows "oneRecordPerFrame s'"
  using assms
  by (auto simp: oneRecordPerFrame_def framed_append writersUsed_append list_all_iff)

lemma frame_nameFile: "oneRecordPerFrame s \<Longrightarrow> oneRecordPerFrame (nameFile env st s)"
  by (erule frame_quiet [where es = "[GenerateName (serial s) (generateWarcFileName env (trace s) (Prefix st) (Compression st) (serial s))]"])
     (simp_all add: nameFile_def emit_def writersUsed_def Let_def)

lemma frame_createFile: "oneRecordPerFrame s \<Longrightarrow> oneRecordPerFrame (createFile env st s)"
proof (cases "osCreate env (trace s) (OutputDirectory st @ currentFileName s)")
  case None
  assume "oneRecordPerFrame s"
  then show ?thesis
    by (rule frame_quiet [where es = "[Create (files s) (OutputDirectory st @ currentFileName s)]"])
       (simp_all add: createFile_def emit_def writersUsed_def Let_def None)
next
  case (Some e)
  assume "oneRecordPerFrame s"
  then show ?thesis
    by (rule frame_quiet [where es = "[]"])
       (simp_all add: createFile_def panic_def writersUsed_def Let_def Some)
qed

lemma frame_newWriter: "oneRecordPerFrame s \<Longrightarrow> oneRecordPerFrame (newWriter env st s)"
proof (cases "NewWriter env (trace s) (currentFileName s) (Compression st)")
  case None
  assume "oneRecordPerFrame s"
  then show ?thesis
    by (rule frame_quiet [where es = "[MakeWriter (writers s) (warcFile s)]"])
       (simp_all add: newWriter_def emit_def writersUsed_def None)
next
  case (Some e)
  assume "oneRecordPerFrame s"
  then show ?thesis
    by (rule frame_quiet [where es = "[]"])
       (simp_all add: newWriter_def panic_def writersUsed_def Some)
qed

lemma frame_closeCompression: "oneRecordPerFrame s \<Longrightarrow> oneRecordPerFrame (closeCompression st s)"
proof -
  assume a: "oneRecordPerFrame s"
  have "closeCompression st s = s \<or> closeCompression st s = emit (CloseCompression (wid (warcWriter s))) s"
    by (simp add: closeCompression_def)
  then show ?thesis
  proof
    assume "closeCompression st s = s"
    then show ?thesis using a by simp
  next
    assume c: "closeCompression st s = emit (CloseCompression (wid (warcWriter s))) s"
    show ?thesis using a
      by (rule frame_quiet [where es = "[CloseCompression (wid (warcWriter s))]"])
         (simp_all add: c emit_def writersUsed_def)
  qed
qed

lemma frame_flushWriter: "oneRecordPerFrame s \<Longrightarrow> oneRecordPerFrame (flushWriter s)"
  by (erule frame_quiet [where es = "[Flush (wid (warcWriter s))]"])
     (simp_all add: flushWriter_def emit_def writersUsed_def)

lemma frame_closeFile: "oneRecordPerFrame s \<Longrightarrow> oneRecordPerFrame (closeFile s)"
  by (erule frame_quiet [where es = "[CloseFile (warcFile s)]"])
     (simp_all add: closeFile_def emit_def writersUsed_def)

lemma frame_renameOpen: "oneRecordPerFrame s \<Longrightarrow> oneRecordPerFrame (renameOpen env st s)"
proof (cases "osRename env (trace s) (OutputDirectory st @ currentFileName s)
                (TrimSuffix (OutputDirectory st @ currentFileName s) ''.open'')")
  case None
  assume "oneRecordPerFrame s"
  then show ?thesis
    by (rule frame_quiet [where es = "[Rename (OutputDirectory st @ currentFileName s)
                (TrimSuffix (OutputDirectory st @ currentFileName s) ''.open'')]"])
       (simp_all add: renameOpen_def emit_def writersUsed_def Let_def None)
next
  case (Some e)
  assume "oneRecordPerFrame s"
  then show ?thesis
    by (rule frame_quiet [where es = "[]"])
       (simp_all add: renameOpen_def panic_def writersUsed_def Let_def Some)
qed

lemma frame_incrementSerial: "oneRecordPerFrame s \<Longrightarrow> oneRecordPerFrame (incrementSerial s)"
  by (simp add: oneRecordPerFrame_def incrementSerial_def)

lemma frame_steps:
  assumes "\<And>a s. a \<in> set as \<Longrightarrow> oneRecordPerFrame s \<Longrightarrow> oneRecordPerFrame (a s)"
    and "oneRecordPerFrame s"
  shows "oneRecordPerFrame (steps as s)"
  by (rule steps_invariant [where I = oneRecordPerFrame]) (simp_all add: assms)

lemma frame_steps_all:
  assumes "list_all (\<lambda>a. \<forall>s. oneRecordPerFrame s \<longrightarrow> oneRecordPerFrame (a s)) as"
    and "oneRecordPerFrame s"
  shows "oneRecordPerFrame (steps as s)"
  using assms by (intro frame_steps) (auto simp: list_all_iff)

text \<open>A new writer, one write through it, and its frame closed.\<close>

lemma frame_write_info:
  assumes "compressed st" and "oneRecordPerFrame s"
  shows "oneRecordPerFrame (steps [newWriter env st, writeInfoRecord env st b, closeCompression st] s)"
proof (cases "stopped s")
  case (Some e)
  then show ?thesis using assms(2) by simp
next
  case None
  show ?thesis
  proof (cases "NewWriter env (trace s) (currentFileName s) (Compression st)")
    case (Some e)
    then show ?thesis using None assms(2)
      by (simp add: newWriter_def panic_def oneRecordPerFrame_def)
  next
    case nw: None
    let ?s1 = "newWriter env st s"
    have s1: "trace ?s1 = trace s @ [MakeWriter (writers s) (warcFile s)]"
        "wid (warcWriter ?s1) = writers s" "writers ?s1 = Suc (writers s)" "stopped ?s1 = None"
      using None nw by (simp_all add: newWriter_def emit_def)
    show ?thesis
    proof (cases "WriteInfoRecord env (trace ?s1) (WarcinfoContent st)")
      case (Inl e)
      have "steps [newWriter env st, writeInfoRecord env st b, closeCompression st] s
              = panic e ?s1"
        using None s1(4) Inl by (simp add: writeInfoRecord_def panic_def)
      moreover have "oneRecordPerFrame (panic e ?s1)"
        using assms(2)
        by (rule frame_quiet [where es = "[MakeWriter (writers s) (warcFile s)]"])
           (simp_all add: s1 panic_def writersUsed_def)
      ultimately show ?thesis by simp
    next
      case (Inr i)
      let ?es = "[MakeWriter (writers s) (warcFile s),
                  WriteInfo (writers s) (wfile (warcWriter ?s1)) i, CloseCompression (writers s)]"
      let ?s3 = "steps [newWriter env st, writeInfoRecord env st b, closeCompression st] s"
      have t: "trace ?s3 = trace s @ ?es" and w: "writers ?s3 = Suc (writers s)"
        using None s1 Inr assms(1)
        by (auto simp add: writeInfoRecord_def closeCompression_def emit_def compressed_def)
      show ?thesis
        using assms(2) unfolding oneRecordPerFrame_def t w
        by (auto simp: framed_append writersUsed_append writersUsed_def list_all_iff intro: less_SucI)
    qed
  qed
qed

lemma frame_writeOne:
  assumes "compressed st" and "oneRecordPerFrame s"
  shows "oneRecordPerFrame (writeOne env st b r s)"
proof (cases "stopped s")
  case (Some e)
  then show ?thesis using assms(2) by (simp add: writeOne_def)
next
  case None
  show ?thesis
  proof (cases "NewWriter env (trace s) (currentFileName s) (Compression st)")
    case (Some e)
    then show ?thesis using None assms(2)
      by (simp add: writeOne_def newWriter_def panic_def oneRecordPerFrame_def)
  next
    case nw: None
    let ?s1 = "newWriter env st s"
    let ?r = "stamp (CaptureTime b) (currentWarcinfoRecordID ?s1) r"
    have s1: "trace ?s1 = trace s @ [MakeWriter (writers s) (warcFile s)]"
        "wid (warcWriter ?s1) = writers s" "writers ?s1 = Suc (writers s)" "stopped ?s1 = None"
      using None nw by (simp_all add: newWriter_def emit_def)
    show ?thesis
    proof (cases "WriteRecord env (trace ?s1) ?r")
      case (Some e)
      have "writeOne env st b r s = panic e ?s1"
        using None s1(4) Some by (simp add: writeOne_def writeStamped_def panic_def Let_def)
      moreover have "oneRecordPerFrame (panic e ?s1)"
        using assms(2)
        by (rule frame_quiet [where es = "[MakeWriter (writers s) (warcFile s)]"])
           (simp_all add: s1 panic_def writersUsed_def)
      ultimately show ?thesis by simp
    next
      case wr: None
      let ?es = "[MakeWriter (writers s) (warcFile s),
                  WriteRec (writers s) (wfile (warcWriter ?s1)) ?r, CloseCompression (writers s)]"
      let ?s3 = "writeOne env st b r s"
      have t: "trace ?s3 = trace s @ ?es" and w: "writers ?s3 = Suc (writers s)"
        using None s1 wr assms(1)
        by (auto simp add: writeOne_def writeStamped_def closeCompression_def emit_def
              compressed_def Let_def)
      show ?thesis
        using assms(2) unfolding oneRecordPerFrame_def t w
        by (auto simp: framed_append writersUsed_append writersUsed_def list_all_iff intro: less_SucI)
    qed
  qed
qed

lemma frame_startFile:
  assumes "compressed st"
  shows "oneRecordPerFrame (startFile env st initial)"
proof -
  let ?A = "[nameFile env st, createFile env st]"
  let ?B = "[newWriter env st, writeInfoRecord env st True, closeCompression st]"
  let ?C = "[newWriter env st]"
  have i: "oneRecordPerFrame initial"
    by (simp add: oneRecordPerFrame_def initial_def writersUsed_def)
  have a: "oneRecordPerFrame (steps ?A initial)"
    by (rule frame_steps_all [OF _ i]) (simp add: frame_nameFile frame_createFile)
  have b: "oneRecordPerFrame (steps ?B (steps ?A initial))"
    using assms a by (rule frame_write_info)
  have c: "oneRecordPerFrame (steps ?C (steps ?B (steps ?A initial)))"
    by (rule frame_steps_all [OF _ b]) (simp add: frame_newWriter)
  have re: "closeAndReopen env st = (\<lambda>s. steps [closeCompression st, newWriter env st] s)"
    using assms
    by (auto simp: closeAndReopen_def closeCompression_def compressed_def fun_eq_iff)
  have "startFile env st initial = steps (?A @ ?B @ ?C) initial"
    unfolding startFile_def re
    by (simp add: steps_stopped)
  then show ?thesis using c by (simp only: steps_append)
qed

lemma frame_rotate:
  assumes "compressed st" and "oneRecordPerFrame s"
  shows "oneRecordPerFrame (rotate env st s)"
proof -
  let ?A = "[renameOpen env st, flushWriter, closeCompression st, closeFile,
             incrementSerial, nameFile env st, createFile env st]"
  let ?B = "[newWriter env st, writeInfoRecord env st False, closeCompression st]"
  have a: "oneRecordPerFrame (steps ?A s)"
    by (rule frame_steps_all [OF _ assms(2)])
       (simp add: frame_renameOpen frame_flushWriter frame_closeCompression frame_closeFile
          frame_incrementSerial frame_nameFile frame_createFile)
  have b: "oneRecordPerFrame (steps ?B (steps ?A s))"
    using assms(1) a by (rule frame_write_info)
  have "rotate env st = steps (?A @ ?B)" by (simp add: rotate_def)
  then show ?thesis using b by (simp only: steps_append)
qed

lemma frame_handleBatch:
  assumes "compressed st" and "oneRecordPerFrame s"
  shows "oneRecordPerFrame (handleBatch env st b s)"
  unfolding handleBatch_def
proof (rule frame_steps [OF _ assms(2)])
  fix a s'
  assume a: "a \<in> set [rotateIfExceeded env st, writeRecords env st b, flushWriter]"
    and s': "oneRecordPerFrame s'"
  have w: "oneRecordPerFrame (writeRecords env st b s')"
    unfolding writeRecords_def
    by (rule frame_steps_all [OF _ s']) (simp add: list_all_iff frame_writeOne [OF assms(1)])
  have r: "oneRecordPerFrame (rotateIfExceeded env st s')"
    using s' assms(1) by (simp add: rotateIfExceeded_def frame_rotate)
  from a w r s' show "oneRecordPerFrame (a s')"
    by (auto simp: frame_flushWriter)
qed

lemma frame_running:
  assumes "compressed st"
  shows "oneRecordPerFrame (running env st bs)"
proof -
  have "running env st bs = consume env st bs (startFile env st initial)"
    by (simp add: running_def initial_def steps_stopped consume_def)
  moreover have "oneRecordPerFrame (consume env st bs (startFile env st initial))"
    unfolding consume_def
    by (rule frame_steps_all [OF _ frame_startFile [OF assms]])
       (simp add: list_all_iff frame_handleBatch [OF assms])
  ultimately show ?thesis by simp
qed

lemma recordWriter_running:
  "recordWriter env st bs = steps [finish env st] (running env st bs)"
  unfolding recordWriter_def running_def
  using steps_append [of "[startFile env st, consume env st bs]" "[finish env st]" initial] by simp

lemma frame_recordWriter:
  assumes "compressed st"
  shows "oneRecordPerFrame (recordWriter env st bs)"
proof -
  have "oneRecordPerFrame (finish env st (running env st bs))"
    unfolding finish_def
    by (rule frame_steps_all [OF _ frame_running [OF assms]])
       (simp add: frame_renameOpen frame_flushWriter frame_closeCompression frame_closeFile)
  then show ?thesis using frame_running [OF assms, of env bs]
    by (simp add: recordWriter_running)
qed

text \<open>
  Claim C8. With GZIP or ZSTD compression, in every run of \<^verbatim>\<open>recordWriter\<close>, while the
  channel is open and after it is closed, every record written, the info records included, is
  followed at once by the close of the compression stream of the writer it went through, and
  no writer is written through twice: every record ends a frame that holds nothing else.
\<close>

theorem recordWriter_frames:
  assumes "Compression st = ''GZIP'' \<or> Compression st = ''ZSTD''"
    and "s = running env st batches \<or> s = recordWriter env st batches"
  shows "framed (trace s) \<and> distinct (writersUsed (trace s))"
proof -
  have "compressed st" using assms(1) by (simp add: compressed_def)
  then have "oneRecordPerFrame s"
    using assms(2) frame_running frame_recordWriter by blast
  then show ?thesis by (simp add: oneRecordPerFrame_def)
qed

theorem recordWriter_frames_witness:
  "Compression (demoSettings ''GZIP'') = ''GZIP''
   \<and> framed (trace (recordWriter demoEnv (demoSettings ''GZIP'') [demoBatch ''t1'', demoBatch ''t2'']))
   \<and> writersUsed (trace (recordWriter demoEnv (demoSettings ''GZIP'') [demoBatch ''t1'', demoBatch ''t2'']))
       = [0, 2, 3, 4]"
proof -
  let ?s = "recordWriter demoEnv (demoSettings ''GZIP'') [demoBatch ''t1'', demoBatch ''t2'']"
  have gz: "Compression (demoSettings ''GZIP'') = ''GZIP''" by (simp add: demoSettings_def)
  then have "framed (trace ?s) \<and> distinct (writersUsed (trace ?s))"
    using recordWriter_frames [of "demoSettings ''GZIP''" ?s demoEnv] by blast
  moreover have "writersUsed (trace ?s) = [0, 2, 3, 4]"
    by (simp add: rotator_defs demo_defs writersUsed_def)
  ultimately show ?thesis using gz by blast
qed

subsection \<open>A rotation, event by event\<close>

lemmas rotator_run_defs =
  recordWriter_def running_def startFile_def consume_def handleBatch_def rotateIfExceeded_def rotate_def
  writeRecords_def writeOne_def finish_def nameFile_def createFile_def newWriter_def
  writeInfoRecord_def closeCompression_def closeAndReopen_def flushWriter_def closeFile_def
  renameOpen_def incrementSerial_def writeStamped_def
  emit_def panic_def initial_def TrimSuffix_def Let_def

text \<open>
  Claim C3. The events of a run with GZIP compression in which the second batch finds the
  first file over the size. The rotation renames the file first and flushes and closes the
  compression stream after that; the claim has flush, close, rename. The statements after the
  loop, at the end of the trace, flush and close before they rename.
\<close>

theorem rotation_trace:
  "trace (recordWriter demoEnv (demoSettings ''GZIP'') [demoBatch ''t1'', demoBatch ''t2'']) =
     [GenerateName 1 ''A-1.warc.open'', Create 0 ''out/A-1.warc.open'',
      MakeWriter 0 0, WriteInfo 0 0 ''info-1'', CloseCompression 0, MakeWriter 1 0,
      MakeWriter 2 0, WriteRec 2 0 (stamp ''t1'' ''info-1'' (NewRecord\<lparr>Content := [0x61]\<rparr>)),
      CloseCompression 2, Flush 2,
      Rename ''out/A-1.warc.open'' ''out/A-1.warc'', Flush 2, CloseCompression 2, CloseFile 0,
      GenerateName 2 ''A-2.warc.open'', Create 1 ''out/A-2.warc.open'',
      MakeWriter 3 1, WriteInfo 3 1 ''info-2'', CloseCompression 3,
      MakeWriter 4 1, WriteRec 4 1 (stamp ''t2'' ''info-1'' (NewRecord\<lparr>Content := [0x61]\<rparr>)),
      CloseCompression 4, Flush 4,
      Flush 4, CloseCompression 4, CloseFile 1, Rename ''out/A-2.warc.open'' ''out/A-2.warc'']"
  by (simp add: rotator_run_defs demo_defs)

text \<open>
  Claim C1. In the same run without compression, the info record at the start of the second
  file has the identifier \<open>info-2\<close>, and the record written to that file refers to \<open>info-1\<close>,
  the info record of the first file: the back-references of the second file are not those the
  claim states. Those of the first file are.
\<close>

theorem second_file_backrefs:
  "infoIdOf (trace (recordWriter demoEnv (demoSettings []) [demoBatch ''t1'', demoBatch ''t2''])) 1
     = Some ''info-2''
   \<and> backrefsTo (trace (recordWriter demoEnv (demoSettings []) [demoBatch ''t1'', demoBatch ''t2''])) 1
     = [Some ''<urn:uuid:info-1>'']
   \<and> \<not> backrefsOK (trace (recordWriter demoEnv (demoSettings []) [demoBatch ''t1'', demoBatch ''t2''])) 1
   \<and> backrefsOK (trace (recordWriter demoEnv (demoSettings []) [demoBatch ''t1'', demoBatch ''t2''])) 0"
  by (simp add: rotator_defs demo_defs backrefsOK_def)

subsection \<open>Batches and their capture time\<close>

lemma written_append: "written (a @ b) = written a @ written b"
  by (simp add: written_def)

lemma stamp_date: "Header (stamp t i r) ''WARC-Date'' = Some t"
  by (simp add: stamp_def setFields_def Set_def)

lemma writeOne_written:
  assumes "stopped s = None"
  shows "(stopped (writeOne env st b r s) = None
          \<and> written (trace (writeOne env st b r s))
              = written (trace s) @ [stamp (CaptureTime b) (currentWarcinfoRecordID s) r]
          \<and> currentWarcinfoRecordID (writeOne env st b r s) = currentWarcinfoRecordID s)
       \<or> (stopped (writeOne env st b r s) \<noteq> None
          \<and> written (trace (writeOne env st b r s)) = written (trace s))"
proof (cases "NewWriter env (trace s) (currentFileName s) (Compression st)")
  case (Some e)
  then have "writeOne env st b r s = panic e s"
    using assms by (simp add: writeOne_def newWriter_def panic_def)
  then show ?thesis by (simp add: panic_def)
next
  case nw: None
  let ?s1 = "newWriter env st s"
  let ?r = "stamp (CaptureTime b) (currentWarcinfoRecordID s) r"
  have s1: "trace ?s1 = trace s @ [MakeWriter (writers s) (warcFile s)]"
      "stopped ?s1 = None" "currentWarcinfoRecordID ?s1 = currentWarcinfoRecordID s"
    using nw by (simp_all add: newWriter_def emit_def assms)
  show ?thesis
  proof (cases "WriteRecord env (trace ?s1) ?r")
    case (Some e)
    have "writeOne env st b r s = panic e ?s1"
      using assms s1 Some by (simp add: writeOne_def writeStamped_def panic_def Let_def)
    then show ?thesis by (simp add: panic_def s1 written_append written_def)
  next
    case None
    let ?s2 = "writeStamped env b r ?s1"
    have s2: "trace ?s2 = trace ?s1 @ [WriteRec (wid (warcWriter ?s1)) (wfile (warcWriter ?s1)) ?r]"
        "stopped ?s2 = None" "currentWarcinfoRecordID ?s2 = currentWarcinfoRecordID s"
      using None s1 by (simp_all add: writeStamped_def emit_def Let_def)
    have w: "writeOne env st b r s = closeCompression st ?s2"
      using assms s1 s2 by (simp add: writeOne_def)
    have c: "stopped (closeCompression st ?s2) = None"
        "currentWarcinfoRecordID (closeCompression st ?s2) = currentWarcinfoRecordID s"
        "written (trace (closeCompression st ?s2)) = written (trace ?s2)"
      using s2 by (simp_all add: closeCompression_def emit_def written_append written_def)
    show ?thesis unfolding w c by (simp add: s2(1) s1(1) written_append written_def)
  qed
qed

lemma writeAll_written:
  assumes "stopped s = None"
  shows "\<exists>n. n \<le> length rs
     \<and> written (trace (steps (map (writeOne env st b) rs) s))
         = written (trace s) @ map (stamp (CaptureTime b) (currentWarcinfoRecordID s)) (take n rs)
     \<and> (stopped (steps (map (writeOne env st b) rs) s) = None \<longrightarrow> n = length rs)"
  using assms
proof (induction rs arbitrary: s)
  case Nil
  then show ?case by simp
next
  case (Cons r rs)
  let ?s1 = "writeOne env st b r s"
  let ?rest = "steps (map (writeOne env st b) rs) ?s1"
  have unfold: "steps (map (writeOne env st b) (r # rs)) s = ?rest"
    using Cons.prems by simp
  from writeOne_written [OF Cons.prems, of env st b r]
  show ?case
  proof
    assume ok: "stopped ?s1 = None
          \<and> written (trace ?s1) = written (trace s) @ [stamp (CaptureTime b) (currentWarcinfoRecordID s) r]
          \<and> currentWarcinfoRecordID ?s1 = currentWarcinfoRecordID s"
    then have run: "stopped ?s1 = None" by simp
    from Cons.IH [OF run] obtain n where n: "n \<le> length rs"
        "written (trace ?rest)
           = written (trace ?s1) @ map (stamp (CaptureTime b) (currentWarcinfoRecordID ?s1)) (take n rs)"
        "stopped ?rest = None \<longrightarrow> n = length rs"
      by (elim exE conjE)
    have a: "Suc n \<le> length (r # rs)" using n(1) by simp
    have b: "written (trace ?rest)
        = written (trace s) @ map (stamp (CaptureTime b) (currentWarcinfoRecordID s)) (take (Suc n) (r # rs))"
      using n(2) ok by simp
    have c: "stopped ?rest = None \<longrightarrow> Suc n = length (r # rs)"
      using n(3) by simp
    show ?thesis unfolding unfold
      by (rule exI [of _ "Suc n"]) (intro conjI a b c)
  next
    assume bad: "stopped ?s1 \<noteq> None \<and> written (trace ?s1) = written (trace s)"
    then have same: "?rest = ?s1" by (simp add: steps_stopped)
    have a: "(0::nat) \<le> length (r # rs)" by simp
    have b: "written (trace ?rest) = written (trace s) @ map (stamp (CaptureTime b) (currentWarcinfoRecordID s)) (take 0 (r # rs))"
      unfolding same using bad by simp
    have c: "stopped ?rest = None \<longrightarrow> 0 = length (r # rs)"
      unfolding same using bad by simp
    show ?thesis unfolding unfold
      by (rule exI [of _ 0]) (intro conjI a b c)
  qed
qed

lemma setFields_type_response:
  "Header (setFields r [(''WARC-Type'', ''response''), (''WARC-Payload-Digest'', d),
        (''WARC-Target-URI'', u), (''Content-Type'', c)]) ''WARC-Type'' = Some ''response''"
  by (simp add: setFields_def Set_def)

lemma setFields_type_request:
  "Header (setFields r [(''WARC-Type'', ''request''), (''WARC-Payload-Digest'', d),
        (''WARC-Target-URI'', u), (''Host'', h), (''Content-Type'', c)]) ''WARC-Type'' = Some ''request''"
  by (simp add: setFields_def Set_def)

lemma callback_isExchange:
  "rawResponseCallback R G now rq rs reqData respData = Inr (rq', rs', batch) \<Longrightarrow>
   isExchange batch \<and> CaptureTime batch = now"
  by (auto simp: rawResponseCallback_def Let_def isExchange_def NewRecordBatch_def
        setFields_type_response setFields_type_request split: sum.splits)

lemma dump_isExchange:
  "RecordsFromHTTPResponse D1 D2 G now rs = Inr (batch, None) \<Longrightarrow>
   isExchange batch \<and> CaptureTime batch = now"
  by (auto simp: RecordsFromHTTPResponse_def Let_def isExchange_def NewRecordBatch_def
        setFields_type_response setFields_type_request split: sum.splits option.splits)

text \<open>
  Claim C6. A batch sent by \<^verbatim>\<open>rawResponseCallback\<close>, and a batch returned without error by
  \<^verbatim>\<open>RecordsFromHTTPResponse\<close>, holds two records, the response and then the request, and one
  capture time. The loop of \<^verbatim>\<open>recordWriter\<close> over a batch writes its records in order, each
  stamped from the batch: all of them when nothing panics, a prefix otherwise; and a stamped
  record has the capture time of the batch as its \<^verbatim>\<open>WARC-Date\<close>.
\<close>

theorem exchange_batches:
  "(rawResponseCallback R G now rq rs reqData respData = Inr (rq', rs', batch)
      \<longrightarrow> isExchange batch \<and> CaptureTime batch = now)
   \<and> (RecordsFromHTTPResponse D1 D2 G now rs = Inr (batch, None)
      \<longrightarrow> isExchange batch \<and> CaptureTime batch = now)
   \<and> (stopped s = None \<longrightarrow>
        (\<exists>n. n \<le> length (Records batch)
          \<and> written (trace (writeRecords env st batch s))
              = written (trace s)
                @ map (stamp (CaptureTime batch) (currentWarcinfoRecordID s)) (take n (Records batch))
          \<and> (stopped (writeRecords env st batch s) = None \<longrightarrow> n = length (Records batch))))
   \<and> Header (stamp (CaptureTime batch) i r) ''WARC-Date'' = Some (CaptureTime batch)"
proof (intro conjI impI)
  assume a: "rawResponseCallback R G now rq rs reqData respData = Inr (rq', rs', batch)"
  show "isExchange batch" by (rule callback_isExchange [OF a, THEN conjunct1])
  show "CaptureTime batch = now" by (rule callback_isExchange [OF a, THEN conjunct2])
next
  assume a: "RecordsFromHTTPResponse D1 D2 G now rs = Inr (batch, None)"
  show "isExchange batch" by (rule dump_isExchange [OF a, THEN conjunct1])
  show "CaptureTime batch = now" by (rule dump_isExchange [OF a, THEN conjunct2])
next
  assume "stopped s = None"
  then show "\<exists>n. n \<le> length (Records batch)
          \<and> written (trace (writeRecords env st batch s))
              = written (trace s)
                @ map (stamp (CaptureTime batch) (currentWarcinfoRecordID s)) (take n (Records batch))
          \<and> (stopped (writeRecords env st batch s) = None \<longrightarrow> n = length (Records batch))"
    unfolding writeRecords_def by (rule writeAll_written)
next
  show "Header (stamp (CaptureTime batch) i r) ''WARC-Date'' = Some (CaptureTime batch)"
    by (rule stamp_date)
qed

lemma demo_scan: "scanPattern demoRaw 0 = Inr 5"
  by (simp add: scanPattern.simps demoRaw_def pattern_def)

lemma demo_headers: "headersFromRawData (\<lambda>rest. Inr []) NewRecord demoRaw = Inr NewRecord"
  by (simp add: headersFromRawData_def demo_scan parseHeaderBlock_def ReadLine_def setJoined_def)
     (simp add: demoRaw_def)

theorem exchange_batches_witness:
  "(\<exists>batch. rawResponseCallback (\<lambda>rest. Inr []) (\<lambda>bs. ''d'') ''t'' demoRequest demoResponse demoRaw demoRaw
        = Inr (demoRequest, demoResponse, batch)
      \<and> isExchange batch \<and> CaptureTime batch = ''t'')
   \<and> (\<exists>batch. RecordsFromHTTPResponse (\<lambda>rs. Inr demoRaw) (\<lambda>rq. Inr demoRaw) (\<lambda>bs. ''d'') ''t'' demoResponse
        = Inr (batch, None)
      \<and> isExchange batch \<and> CaptureTime batch = ''t'')
   \<and> stopped initial = None
   \<and> map (\<lambda>r. Header r ''WARC-Date'')
        (written (trace (writeRecords demoEnv (demoSettings []) (demoBatch ''t1'') initial)))
       = [Some ''t1'']"
proof -
  note main = exchange_batches
  have "\<exists>batch. rawResponseCallback (\<lambda>rest. Inr []) (\<lambda>bs. ''d'') ''t'' demoRequest demoResponse demoRaw demoRaw
        = Inr (demoRequest, demoResponse, batch)"
    by (simp add: rawResponseCallback_def demo_headers readReaderIfNotNil_def Let_def
          demoRequest_def demoResponse_def)
  then obtain b1 where b1: "rawResponseCallback (\<lambda>rest. Inr []) (\<lambda>bs. ''d'') ''t'' demoRequest demoResponse demoRaw demoRaw
        = Inr (demoRequest, demoResponse, b1)" ..
  have e1: "isExchange b1 \<and> CaptureTime b1 = ''t''"
    using main [of "\<lambda>rest. Inr []" "\<lambda>bs. ''d''" "''t''" demoRequest demoResponse demoRaw demoRaw
        demoRequest demoResponse b1, THEN conjunct1] b1 by (rule mp)
  have "\<exists>batch. RecordsFromHTTPResponse (\<lambda>rs. Inr demoRaw) (\<lambda>rq. Inr demoRaw) (\<lambda>bs. ''d'') ''t'' demoResponse
        = Inr (batch, None)"
    by (simp add: RecordsFromHTTPResponse_def Let_def demoResponse_def)
  then obtain b2 where b2: "RecordsFromHTTPResponse (\<lambda>rs. Inr demoRaw) (\<lambda>rq. Inr demoRaw) (\<lambda>bs. ''d'') ''t'' demoResponse
        = Inr (b2, None)" ..
  have e2: "isExchange b2 \<and> CaptureTime b2 = ''t''"
    using main [where batch = b2 and ?D1.0 = "\<lambda>rs. Inr demoRaw" and ?D2.0 = "\<lambda>rq. Inr demoRaw"
        and G = "\<lambda>bs. ''d''" and now = "''t''" and rs = demoResponse, THEN conjunct2, THEN conjunct1] b2
    by (rule mp)
  have run: "stopped initial = None" by (simp add: initial_def)
  have w: "map (\<lambda>r. Header r ''WARC-Date'')
        (written (trace (writeRecords demoEnv (demoSettings []) (demoBatch ''t1'') initial)))
       = [Some ''t1'']"
    by (simp add: rotator_defs demo_defs written_def)
  show ?thesis using b1 e1 b2 e2 run w by blast
qed

subsection \<open>The client's wrapper and callback\<close>

lemmas transport_defs =
  RoundTrip_def send_def exchange_def cwWrite_def cwRead_def cwClose_def wrap_def plainDial_def
  tlsDial_def checkRedirect_def triggerCallback_def tlog_def tpanic_def foo_def Let_def

text \<open>
  Claim C2. A request whose response is no redirect returns the response and leaves the
  list of callback invocations empty: the captured bytes stay in the wrapper's buffers and the
  callback is not invoked for the terminal hop, where the claim has one invocation. A request
  redirected once invokes the callback once, for the redirect, and not for the response that
  ends the chain.
\<close>

theorem terminal_hop_not_captured:
  "RoundTrip demoRequest [demoHop (Some (PlainDial (Inr 1))) None] foo
     = (Returned demoResponse,
        \<lparr>cW = \<lparr>cw_c = Some 1, cw_resp = demoRaw, cw_req = demoRaw\<rparr>, calls = [],
         tevents = [NewConnWrapper, NetDialed 1, Attached 1, ConnWrite 1 demoRaw, ConnRead 1 demoRaw],
         tstopped = None\<rparr>)
   \<and> length (calls (snd (RoundTrip demoRequest
          [demoHop (Some (PlainDial (Inr 1))) (Some demoRequest), demoHop None None] foo))) = 1"
  by (simp add: transport_defs demoHop_def)

lemma wrap_fine:
  assumes "dialsFine spec" and "cw_c (cW s) = None"
  shows "dialWith spec s =
     (ReturnedcW, s\<lparr>cW := (cW s)\<lparr>cw_c := dialedConn spec\<rparr>,
                     tevents := tevents s @ dialEvents spec @ [Attached (the (dialedConn spec))]\<rparr>)"
  using assms
  by (cases spec rule: dialsFine.cases) (simp_all add: wrap_def plainDial_def tlsDial_def tlog_def)

lemma wrap_attached:
  assumes "dialsFine spec" and "cw_c (cW s) \<noteq> None"
  shows "dialWith spec s =
     (DialPanicked, s\<lparr>tevents := tevents s @ dialEvents spec,
                      tstopped := Some (Panic ''connWrapper already contains a connection'')\<rparr>)"
  using assms
  by (cases spec rule: dialsFine.cases)
     (auto simp add: wrap_def plainDial_def tlsDial_def tlog_def tpanic_def)

lemma wrap_error:
  assumes "dialError spec = Some err"
  shows "dialWith spec s = (DialError err, s\<lparr>tevents := tevents s @ dialEvents spec\<rparr>)"
  using assms
  by (cases spec rule: dialError.cases)
     (auto simp add: wrap_def plainDial_def tlsDial_def tlog_def)

lemma fine_or_error: "dialsFine spec \<or> (\<exists>err. dialError spec = Some err)"
  by (cases spec rule: dialError.cases) auto

lemma attachments_append: "attachments (a @ b) = attachments a + attachments b"
  by (simp add: attachments_def)

lemma attachments_dialEvents: "attachments (dialEvents spec) = 0"
  by (cases spec rule: dialEvents.cases) (simp_all add: attachments_def)

lemma attachments_Attached: "attachments [Attached c] = 1"
  by (simp add: attachments_def)

lemma held_dialWith:
  assumes "held c0 s"
  shows "held c0 (snd (dialWith spec s))"
proof (cases "dialsFine spec")
  case True
  show ?thesis
  proof (cases "cw_c (cW s)")
    case None
    have "dialedConn spec \<noteq> None" using True by (cases spec rule: dialsFine.cases) simp_all
    then show ?thesis
      using assms None
      by (auto simp add: wrap_fine [OF True None] held_def attachments_append
            attachments_dialEvents attachments_Attached split: option.splits)
  next
    case (Some c)
    then have "cw_c (cW s) \<noteq> None" by simp
    from wrap_attached [OF True this] show ?thesis
      using assms by (simp add: held_def attachments_append attachments_dialEvents)
  qed
next
  case False
  then obtain err where "dialError spec = Some err" using fine_or_error by blast
  from wrap_error [OF this] show ?thesis
    using assms by (simp add: held_def attachments_append attachments_dialEvents)
qed

lemma held_cwWrite: "held c0 s \<Longrightarrow> held c0 (cwWrite b s)"
  by (auto simp add: held_def cwWrite_def tlog_def tpanic_def attachments_append attachments_def Let_def
        split: option.splits)

lemma held_cwRead: "held c0 s \<Longrightarrow> held c0 (cwRead b s)"
  by (auto simp add: held_def cwRead_def tlog_def tpanic_def attachments_append attachments_def
        split: option.splits)

lemma held_cwClose: "held c0 s \<Longrightarrow> held c0 (cwClose s)"
  by (auto simp add: held_def cwClose_def tlog_def tpanic_def attachments_append attachments_def
        split: option.splits)

lemma held_triggerCallback: "held c0 s \<Longrightarrow> held c0 (triggerCallback rq rs s)"
  by (simp add: held_def triggerCallback_def split: option.splits)

lemma held_checkRedirect: "held c0 s \<Longrightarrow> held c0 (snd (checkRedirect rq rs via s))"
  by (simp add: checkRedirect_def Let_def held_triggerCallback)

lemma held_exchange: "held c0 s \<Longrightarrow> held c0 (exchange h s)"
  by (simp add: exchange_def Let_def held_cwWrite held_cwRead)

lemma held_send: "held c0 s \<Longrightarrow> held c0 (snd (send h s))"
proof (cases "dialing h")
  case None
  assume "held c0 s"
  then show ?thesis by (simp add: send_def None held_exchange)
next
  case (Some spec)
  assume "held c0 s"
  then have d: "held c0 (snd (dialWith spec s))" by (rule held_dialWith)
  then have "held c0 (exchange h (snd (dialWith spec s)))" by (rule held_exchange)
  with d show ?thesis
    by (cases "dialWith spec s") (auto simp: send_def Some split: dialResult.splits)
qed

lemma held_Do: "held c0 s \<Longrightarrow> held c0 (snd (Do via rq hs s))"
proof (induction hs arbitrary: via rq s)
  case Nil
  then show ?case by simp
next
  case (Cons h hs)
  obtain r s1 where s: "send h s = (r, s1)" by (cases "send h s")
  have h1: "held c0 s1" using held_send [OF Cons.prems, of h] s by simp
  show ?case
  proof (cases "r = ReturnedcW \<and> tstopped s1 = None \<and> redirect h \<noteq> None")
    case False
    then show ?thesis using s h1
      by (cases r) (auto split: option.splits)
  next
    case True
    then obtain up where up: "redirect h = Some up" by auto
    obtain e s2 where c: "checkRedirect up (response h) (via @ [rq]) s1 = (e, s2)"
      by (cases "checkRedirect up (response h) (via @ [rq]) s1")
    have h2: "held c0 s2" using held_checkRedirect [OF h1, of up "response h" "via @ [rq]"] c by simp
    show ?thesis
    proof (cases e)
      case None
      then show ?thesis using True s up c Cons.IH [OF h2] by simp
    next
      case (Some err)
      then show ?thesis using True s up c h2 by simp
    qed
  qed
qed

lemma held_perform: "held c0 s \<Longrightarrow> held c0 (perform op s)"
  by (cases op)
     (simp_all add: held_dialWith held_cwWrite held_cwRead held_cwClose held_triggerCallback
        held_Do RoundTrip_def)

lemma held_fold: "held c0 s \<Longrightarrow> held c0 (fold perform ops s)"
  by (induction ops arbitrary: s) (simp_all add: held_perform)

lemma held_foo: "held None foo"
  by (simp add: held_def foo_def attachments_def)

text \<open>
  Claim C10, amended. In every state a client reaches from \<^verbatim>\<open>foo\<close>, at most one connection
  has been attached; once the wrapper's field \<^verbatim>\<open>c\<close> is set, nothing the transport or the caller
  does changes it, closing the connection included; a later dial whose underlying dial returns
  without error panics with the already-contains-a-connection fault, and a later dial whose
  underlying dial fails returns that error and does not panic.
\<close>

theorem attached_connection_stays:
  "attachments (tevents (fold perform ops foo)) \<le> 1
   \<and> (cw_c (cW (fold perform ops foo)) \<noteq> None \<longrightarrow>
        cw_c (cW (fold perform later (fold perform ops foo))) = cw_c (cW (fold perform ops foo))
        \<and> (dialsFine spec \<longrightarrow>
             dialWith spec (fold perform ops foo) =
               (DialPanicked,
                (fold perform ops foo)\<lparr>tevents := tevents (fold perform ops foo) @ dialEvents spec,
                   tstopped := Some (Panic ''connWrapper already contains a connection'')\<rparr>))
        \<and> (dialError spec = Some err \<longrightarrow>
             dialWith spec (fold perform ops foo) =
               (DialError err,
                (fold perform ops foo)\<lparr>tevents := tevents (fold perform ops foo) @ dialEvents spec\<rparr>)))"
proof -
  let ?t = "fold perform ops foo"
  have h: "held None ?t" using held_foo by (rule held_fold)
  then have one: "attachments (tevents ?t) \<le> 1" by (simp add: held_def)
  have stays: "cw_c (cW (fold perform later ?t)) = cw_c (cW ?t)" if "cw_c (cW ?t) \<noteq> None"
  proof -
    have "held (cw_c (cW ?t)) ?t" using h by (simp add: held_def)
    then have "held (cw_c (cW ?t)) (fold perform later ?t)" by (rule held_fold)
    then show ?thesis using that by (simp add: held_def)
  qed
  show ?thesis
    using one stays wrap_attached [of spec ?t] wrap_error [of spec err ?t] by blast
qed

theorem attached_connection_stays_witness:
  "cw_c (cW (fold perform [OpDial (PlainDial (Inr 1)), OpClose] foo)) = Some 1
   \<and> attachments (tevents (fold perform [OpDial (PlainDial (Inr 1)), OpClose] foo)) \<le> 1
   \<and> cw_c (cW (fold perform [OpClose, OpDial (PlainDial (Inr 2))]
          (fold perform [OpDial (PlainDial (Inr 1)), OpClose] foo))) = Some 1
   \<and> dialsFine (TLSDial (Inr 2) None)
   \<and> fst (dialWith (TLSDial (Inr 2) None) (fold perform [OpDial (PlainDial (Inr 1)), OpClose] foo))
       = DialPanicked
   \<and> dialError (PlainDial (Inl ''refused'')) = Some ''refused''
   \<and> fst (dialWith (PlainDial (Inl ''refused'')) (fold perform [OpDial (PlainDial (Inr 1)), OpClose] foo))
       = DialError ''refused''"
proof -
  let ?ops = "[OpDial (PlainDial (Inr 1)), OpClose]"
  let ?t = "fold perform ?ops foo"
  have c: "cw_c (cW ?t) = Some 1"
    by (simp add: transport_defs)
  then have n: "cw_c (cW ?t) \<noteq> None" by simp
  have f: "dialsFine (TLSDial (Inr 2) None)" by simp
  have e: "dialError (PlainDial (Inl ''refused'')) = Some ''refused''" by simp
  note a = attached_connection_stays [of ?ops "[OpClose, OpDial (PlainDial (Inr 2))]"
      "TLSDial (Inr 2) None"]
  note b = attached_connection_stays [of ?ops "[]" "PlainDial (Inl ''refused'')" "''refused''"]
  have 1: "attachments (tevents ?t) \<le> 1" using a by (rule conjunct1)
  have 2: "cw_c (cW (fold perform [OpClose, OpDial (PlainDial (Inr 2))] ?t)) = Some 1"
    using a [THEN conjunct2, THEN mp, OF n, THEN conjunct1] c by simp
  have 3: "fst (dialWith (TLSDial (Inr 2) None) ?t) = DialPanicked"
    using a [THEN conjunct2, THEN mp, OF n, THEN conjunct2, THEN conjunct1, THEN mp, OF f] by simp
  have 4: "fst (dialWith (PlainDial (Inl ''refused'')) ?t) = DialError ''refused''"
    using b [THEN conjunct2, THEN mp, OF n, THEN conjunct2, THEN conjunct2, THEN mp, OF e] by simp
  show ?thesis using c 1 2 f 3 e 4 by (intro conjI)
qed

text \<open>
  Claim C10 as stated fails where it says that every later dial panics: after a first dial
  that attached connection 1, a dial that the network refuses returns the error, and the
  client runs on.
\<close>

theorem later_dial_may_fail_counterexample:
  "cw_c (cW (snd (dialWith (PlainDial (Inr 1)) foo))) = Some 1
   \<and> dialWith (PlainDial (Inl ''refused'')) (snd (dialWith (PlainDial (Inr 1)) foo))
       = (DialError ''refused'', snd (dialWith (PlainDial (Inr 1)) foo))
   \<and> fst (dialWith (PlainDial (Inl ''refused'')) (snd (dialWith (PlainDial (Inr 1)) foo)))
       \<noteq> DialPanicked
   \<and> tstopped (snd (dialWith (PlainDial (Inl ''refused'')) (snd (dialWith (PlainDial (Inr 1)) foo))))
       = None"
  by (simp add: transport_defs)

text \<open>
  Claim C4, amended. On a dial, plain or TLS, whose underlying dial (for TLS, \<^verbatim>\<open>tls.Dial\<close> and
  \<^verbatim>\<open>dial.Handshake\<close>) returns without error while the wrapper holds no connection, the wrapper
  the client was built with is attached to the new connection and returned: its two buffers
  are the ones it had, no wrapper is made, and the attachment is logged after the events of
  the dial, the return of the handshake among them.
\<close>

theorem dial_attaches_shared_wrapper:
  assumes "dialsFine spec" and "cw_c (cW s) = None"
  shows "fst (dialWith spec s) = ReturnedcW
     \<and> cw_c (cW (snd (dialWith spec s))) = dialedConn spec
     \<and> dialedConn spec \<noteq> None
     \<and> cw_req (cW (snd (dialWith spec s))) = cw_req (cW s)
     \<and> cw_resp (cW (snd (dialWith spec s))) = cw_resp (cW s)
     \<and> tevents (snd (dialWith spec s))
         = tevents s @ dialEvents spec @ [Attached (the (dialedConn spec))]
     \<and> wrappersMade (tevents (snd (dialWith spec s))) = wrappersMade (tevents s)"
proof -
  have d: "dialedConn spec \<noteq> None"
    using assms(1) by (cases spec rule: dialsFine.cases) simp_all
  have w: "wrappersMade (dialEvents spec) = 0"
    by (cases spec rule: dialEvents.cases) (simp_all add: wrappersMade_def)
  show ?thesis
    using d w by (simp add: wrap_fine [OF assms] wrappersMade_def)
qed

theorem dial_attaches_shared_wrapper_witness:
  "dialsFine (TLSDial (Inr 1) None) \<and> cw_c (cW foo) = None
   \<and> fst (dialWith (TLSDial (Inr 1) None) foo) = ReturnedcW
   \<and> cw_c (cW (snd (dialWith (TLSDial (Inr 1) None) foo))) = Some 1
   \<and> tevents (snd (dialWith (TLSDial (Inr 1) None) foo))
       = [NewConnWrapper, TLSDialed 1, HandshakeReturned 1 None, Attached 1]
   \<and> wrappersMade (tevents (snd (dialWith (TLSDial (Inr 1) None) foo))) = 1"
proof -
  have f: "dialsFine (TLSDial (Inr 1) None)" by simp
  have n: "cw_c (cW foo) = None" by (simp add: foo_def)
  have m: "wrappersMade (tevents foo) = 1" "tevents foo = [NewConnWrapper]"
    by (simp_all add: foo_def wrappersMade_def)
  show ?thesis
    using dial_attaches_shared_wrapper [OF f n] f n m by (simp add: wrappersMade_def)
qed

text \<open>
  Claim C4 as stated fails: on a TLS dial the handshake has returned before the wrapper is
  attached, and a second dial gets no wrapper of its own but panics; one wrapper was made in
  all.
\<close>

theorem wrapper_not_fresh_counterexample:
  "tevents (snd (dialWith (TLSDial (Inr 1) None) foo))
     = [NewConnWrapper, TLSDialed 1, HandshakeReturned 1 None, Attached 1]
   \<and> fst (dialWith (PlainDial (Inr 2)) (snd (dialWith (TLSDial (Inr 1) None) foo))) = DialPanicked
   \<and> tevents (snd (dialWith (PlainDial (Inr 2)) (snd (dialWith (TLSDial (Inr 1) None) foo))))
     = [NewConnWrapper, TLSDialed 1, HandshakeReturned 1 None, Attached 1, NetDialed 2]
   \<and> wrappersMade (tevents (snd (dialWith (PlainDial (Inr 2)) (snd (dialWith (TLSDial (Inr 1) None) foo)))))
     = 1"
  by (simp add: transport_defs wrappersMade_def)






subsection \<open>Files, names and rotations\<close>

lemma createdPaths_append: "createdPaths (a @ b) = createdPaths a @ createdPaths b"
  by (simp add: createdPaths_def)

lemma generated_append: "generated dir (a @ b) = generated dir a @ generated dir b"
  by (simp add: generated_def)

lemma rotations_append: "rotations (a @ b) = rotations a + rotations b"
  by (simp add: rotations_def)

lemma namedBy_append:
  "namedBy env st h (a @ b) = (namedBy env st h a \<and> namedBy env st (h @ a) b)"
  by (induction env st h a rule: namedBy.induct) simp_all

lemma calm_created: "list_all calmEvent es \<Longrightarrow> createdPaths es = []"
  by (induction es) (auto simp: createdPaths_def elim: calmEvent.elims)

lemma calm_generated: "list_all calmEvent es \<Longrightarrow> generated dir es = []"
  by (induction es) (auto simp: generated_def elim: calmEvent.elims)

lemma calm_namedBy: "list_all calmEvent es \<Longrightarrow> namedBy env st h es"
  by (induction es arbitrary: h) (auto elim: calmEvent.elims)

lemma quiet_calm: "list_all quietEvent es \<Longrightarrow> list_all calmEvent es"
  by (simp add: list_all_iff quietEvent_def)

lemma quiet_rotations: "list_all quietEvent es \<Longrightarrow> rotations es = 0"
  by (simp add: rotations_def list_all_iff quietEvent_def)

lemma generated_serials: "map fst (generated dir tr) = serials tr"
proof (induction tr)
  case Nil
  then show ?case by (simp add: generated_def serials_def)
next
  case (Cons e tr)
  then show ?case by (cases e) (simp_all add: generated_def serials_def)
qed

lemma quiet_newWriter: "quiet (newWriter env st)"
  by (simp add: quiet_def newWriter_def emit_def panic_def quietEvent_def split: option.splits)

lemma quiet_writeInfoRecord: "quiet (writeInfoRecord env st b)"
  by (simp add: quiet_def writeInfoRecord_def emit_def panic_def quietEvent_def split: sum.splits)

lemma quiet_closeCompression: "quiet (closeCompression st)"
  by (simp add: quiet_def closeCompression_def emit_def quietEvent_def)

lemma quiet_flushWriter: "quiet flushWriter"
  by (simp add: quiet_def flushWriter_def emit_def quietEvent_def)

lemma quiet_closeFile: "quiet closeFile"
  by (simp add: quiet_def closeFile_def emit_def quietEvent_def)

lemma quiet_incrementSerial: "quiet incrementSerial"
  by (simp add: quiet_def incrementSerial_def)

lemma quiet_writeStamped: "quiet (writeStamped env b r)"
  by (simp add: quiet_def writeStamped_def emit_def panic_def quietEvent_def Let_def
        split: option.splits)

lemma quiet_emit_close: "quiet (emit (CloseCompression w))"
  by (simp add: quiet_def emit_def quietEvent_def)

lemma quiet_steps:
  assumes "list_all quiet as"
  shows "quiet (steps as)"
  unfolding quiet_def
proof
  fix s
  from assms show "\<exists>es. trace (steps as s) = trace s @ es \<and> list_all quietEvent es"
  proof (induction as arbitrary: s)
    case Nil
    then show ?case by simp
  next
    case (Cons a as)
    show ?case
    proof (cases "stopped s")
      case (Some e)
      then show ?thesis by simp
    next
      case None
      from Cons.prems have "quiet a" and rest: "list_all quiet as" by simp_all
      then obtain es1 where 1: "trace (a s) = trace s @ es1" "list_all quietEvent es1"
        unfolding quiet_def by blast
      from Cons.IH [OF rest, of "a s"] obtain es2 where
        2: "trace (steps as (a s)) = trace (a s) @ es2" "list_all quietEvent es2"
        by (elim exE conjE)
      have "trace (steps (a # as) s) = trace s @ (es1 @ es2)" "list_all quietEvent (es1 @ es2)"
        using None 1 2 by simp_all
      then show ?thesis by (rule_tac x = "es1 @ es2" in exI) simp
    qed
  qed
qed

lemma quiet_closeAndReopen: "quiet (closeAndReopen env st)"
  unfolding quiet_def
proof
  fix s :: wstate
  have q: "quiet (steps [emit (CloseCompression (wid (warcWriter s))), newWriter env st])"
    by (rule quiet_steps) (simp add: quiet_emit_close quiet_newWriter)
  have "closeAndReopen env st s = s
      \<or> closeAndReopen env st s
          = steps [emit (CloseCompression (wid (warcWriter s))), newWriter env st] s"
    unfolding closeAndReopen_def by (simp del: steps.simps)
  then show "\<exists>es. trace (closeAndReopen env st s) = trace s @ es \<and> list_all quietEvent es"
  proof
    assume "closeAndReopen env st s = s"
    then show ?thesis by simp
  next
    assume e: "closeAndReopen env st s
          = steps [emit (CloseCompression (wid (warcWriter s))), newWriter env st] s"
    show ?thesis unfolding e using q unfolding quiet_def by (rule spec)
  qed
qed

lemma quiet_writeOne: "quiet (writeOne env st b r)"
  unfolding writeOne_def
  by (rule quiet_steps) (simp add: quiet_newWriter quiet_writeStamped quiet_closeCompression)

lemma quiet_writeRecords: "quiet (writeRecords env st b)"
  unfolding writeRecords_def
  by (rule quiet_steps) (simp add: list_all_iff quiet_writeOne)

lemma filesInv_quiet:
  assumes "quiet a" and "stopped s = None" and "filesInv env st d s"
  shows "filesInv env st d (a s)"
proof -
  from assms(1) obtain es where es: "trace (a s) = trace s @ es" "list_all quietEvent es"
    unfolding quiet_def by blast
  have calm: "list_all calmEvent es" using es(2) by (rule quiet_calm)
  have v: "createdPaths (trace (a s)) = createdPaths (trace s)"
      "generated (OutputDirectory st) (trace (a s)) = generated (OutputDirectory st) (trace s)"
      "rotations (trace (a s)) = rotations (trace s)"
      "namedBy env st [] (trace (a s)) = namedBy env st [] (trace s)"
    using es calm
    by (simp_all add: createdPaths_append generated_append rotations_append namedBy_append
          calm_created calm_generated calm_namedBy quiet_rotations)
  from assms(2,3) have run: "namedBy env st [] (trace s)"
      "map snd (generated (OutputDirectory st) (trace s)) = createdPaths (trace s)"
      "length (createdPaths (trace s)) + d = Suc (rotations (trace s))"
    by (simp_all add: filesInv_def Let_def)
  have len: "length (generated (OutputDirectory st) (trace s)) = length (createdPaths (trace s))"
    using arg_cong [OF run(2), of length] by simp
  show ?thesis
    unfolding filesInv_def v Let_def using run len by simp
qed

lemma filesInv_steps_quiet:
  assumes "list_all quiet as" and "filesInv env st d s"
  shows "filesInv env st d (steps as s)"
proof (rule steps_invariant [where I = "filesInv env st d"])
  fix a s'
  assume a: "a \<in> set as" and r: "stopped s' = None" and i: "filesInv env st d s'"
  have "quiet a" using assms(1) a by (simp add: list_all_iff)
  then show "filesInv env st d (a s')" using r i by (rule filesInv_quiet)
next
  show "filesInv env st d s" by (rule assms(2))
qed

lemma filesInv_stopped: "stopped s \<noteq> None \<Longrightarrow> filesInv env st d s = filesInv env st d' s"
  by (auto simp: filesInv_def Let_def)

lemma filesInv_renameOpen:
  assumes "stopped s = None" and "filesInv env st 0 s"
  shows "filesInv env st 1 (renameOpen env st s)"
proof -
  from assms have run: "namedBy env st [] (trace s)"
      "map snd (generated (OutputDirectory st) (trace s)) = createdPaths (trace s)"
      "length (createdPaths (trace s)) = Suc (rotations (trace s))"
    by (simp_all add: filesInv_def Let_def)
  have len: "length (generated (OutputDirectory st) (trace s)) = length (createdPaths (trace s))"
    using arg_cong [OF run(2), of length] by simp
  show ?thesis
  proof (cases "osRename env (trace s) (OutputDirectory st @ currentFileName s)
                  (TrimSuffix (OutputDirectory st @ currentFileName s) ''.open'')")
    case None
    then show ?thesis
      using assms(1) run
      by (simp add: filesInv_def renameOpen_def emit_def Let_def createdPaths_append
            generated_append rotations_append namedBy_append createdPaths_def generated_def
            rotations_def)
  next
    case (Some e)
    then show ?thesis
      using run len by (simp add: filesInv_def renameOpen_def panic_def Let_def)
  qed
qed

lemma filesInv_name_create:
  assumes "filesInv env st 1 s"
  shows "filesInv env st 0 (steps [nameFile env st, createFile env st] s)"
proof (cases "stopped s")
  case (Some e)
  then show ?thesis using assms filesInv_stopped [of s env st 0 1] by simp
next
  case None
  from assms None have run: "namedBy env st [] (trace s)"
      "map snd (generated (OutputDirectory st) (trace s)) = createdPaths (trace s)"
      "length (createdPaths (trace s)) = rotations (trace s)"
    by (simp_all add: filesInv_def Let_def)
  have len: "length (generated (OutputDirectory st) (trace s)) = length (createdPaths (trace s))"
    using arg_cong [OF run(2), of length] by simp
  let ?name = "generateWarcFileName env (trace s) (Prefix st) (Compression st) (serial s)"
  let ?s1 = "nameFile env st s"
  have s1: "trace ?s1 = trace s @ [GenerateName (serial s) ?name]" "currentFileName ?s1 = ?name"
      "stopped ?s1 = None" "files ?s1 = files s"
    using None by (simp_all add: nameFile_def emit_def Let_def)
  have st: "steps [nameFile env st, createFile env st] s = createFile env st ?s1"
    using None s1(3) by simp
  show ?thesis
  proof (cases "osCreate env (trace ?s1) (OutputDirectory st @ ?name)")
    case None
    then have t: "trace (createFile env st ?s1)
          = trace s @ [GenerateName (serial s) ?name, Create (files s) (OutputDirectory st @ ?name)]"
        and r: "stopped (createFile env st ?s1) = None"
      using s1 by (simp_all add: createFile_def emit_def Let_def)
    show ?thesis
      unfolding st filesInv_def Let_def t r
      using run
      by (simp add: createdPaths_append generated_append rotations_append namedBy_append
            createdPaths_def generated_def rotations_def)
  next
    case (Some e)
    then have t: "trace (createFile env st ?s1) = trace s @ [GenerateName (serial s) ?name]"
        and r: "stopped (createFile env st ?s1) = Some (Panic e)"
      using s1 by (simp_all add: createFile_def panic_def Let_def)
    show ?thesis
      unfolding st filesInv_def Let_def t r
      using run len
      by (simp add: createdPaths_append generated_append rotations_append namedBy_append
            createdPaths_def generated_def rotations_def)
  qed
qed

lemma filesInv_startFile: "filesInv env st 0 (startFile env st initial)"
proof -
  let ?A = "[nameFile env st, createFile env st]"
  let ?B = "[newWriter env st, writeInfoRecord env st True, closeAndReopen env st]"
  have i: "filesInv env st 1 initial"
    by (simp add: filesInv_def initial_def createdPaths_def generated_def rotations_def)
  have a: "filesInv env st 0 (steps ?A initial)" using i by (rule filesInv_name_create)
  have b: "filesInv env st 0 (steps ?B (steps ?A initial))"
    by (rule filesInv_steps_quiet [OF _ a])
       (simp add: quiet_newWriter quiet_writeInfoRecord quiet_closeAndReopen)
  have "startFile env st = steps (?A @ ?B)" by (simp add: startFile_def)
  then show ?thesis using b by (simp only: steps_append)
qed

lemma filesInv_rotate:
  assumes "stopped s = None" and "filesInv env st 0 s"
  shows "filesInv env st 0 (rotate env st s)"
proof -
  let ?R = "[renameOpen env st]"
  let ?A = "[flushWriter, closeCompression st, closeFile, incrementSerial]"
  let ?M = "[nameFile env st, createFile env st]"
  let ?B = "[newWriter env st, writeInfoRecord env st False, closeCompression st]"
  have r: "filesInv env st 1 (steps ?R s)"
    using assms filesInv_renameOpen [OF assms] by simp
  have a: "filesInv env st 1 (steps ?A (steps ?R s))"
    by (rule filesInv_steps_quiet [OF _ r])
       (simp add: quiet_flushWriter quiet_closeCompression quiet_closeFile quiet_incrementSerial)
  have m: "filesInv env st 0 (steps ?M (steps ?A (steps ?R s)))"
    using a by (rule filesInv_name_create)
  have b: "filesInv env st 0 (steps ?B (steps ?M (steps ?A (steps ?R s))))"
    by (rule filesInv_steps_quiet [OF _ m])
       (simp add: quiet_newWriter quiet_writeInfoRecord quiet_closeCompression)
  have "rotate env st = steps (?R @ ?A @ ?M @ ?B)" by (simp add: rotate_def)
  then show ?thesis using b by (simp only: steps_append)
qed

lemma filesInv_handleBatch:
  assumes "filesInv env st 0 s"
  shows "filesInv env st 0 (handleBatch env st b s)"
  unfolding handleBatch_def
proof (rule steps_invariant [where I = "filesInv env st 0", OF _ assms])
  fix a s'
  assume a: "a \<in> set [rotateIfExceeded env st, writeRecords env st b, flushWriter]"
    and r: "stopped s' = None" and i: "filesInv env st 0 s'"
  have 1: "filesInv env st 0 (rotateIfExceeded env st s')"
    using r i by (simp add: rotateIfExceeded_def filesInv_rotate)
  have 2: "filesInv env st 0 (writeRecords env st b s')"
    using quiet_writeRecords r i by (rule filesInv_quiet)
  have 3: "filesInv env st 0 (flushWriter s')"
    using quiet_flushWriter r i by (rule filesInv_quiet)
  from a 1 2 3 show "filesInv env st 0 (a s')" by auto
qed

lemma filesInv_running: "filesInv env st 0 (running env st bs)"
proof -
  have e: "running env st bs = consume env st bs (startFile env st initial)"
    by (simp add: running_def initial_def steps_stopped consume_def)
  have "filesInv env st 0 (consume env st bs (startFile env st initial))"
    unfolding consume_def
  proof (rule steps_invariant [where I = "filesInv env st 0", OF _ filesInv_startFile])
    fix a s'
    assume "a \<in> set (map (handleBatch env st) bs)" and "filesInv env st 0 s'"
    then show "filesInv env st 0 (a s')" using filesInv_handleBatch by auto
  qed
  then show ?thesis by (simp only: e)
qed

lemma finish_calm:
  "\<exists>es. trace (finish env st s) = trace s @ es \<and> list_all calmEvent es"
proof -
  let ?A = "[flushWriter, closeCompression st, closeFile]"
  let ?t = "steps ?A s"
  have "quiet (steps ?A)"
    by (rule quiet_steps) (simp add: quiet_flushWriter quiet_closeCompression quiet_closeFile)
  then obtain es1 where 1: "trace ?t = trace s @ es1" "list_all quietEvent es1"
    unfolding quiet_def by blast
  have c1: "list_all calmEvent es1" using 1(2) by (rule quiet_calm)
  have "\<exists>es2. trace (steps [renameOpen env st] ?t) = trace ?t @ es2 \<and> list_all calmEvent es2"
    by (cases "stopped ?t")
       (simp_all add: renameOpen_def emit_def panic_def Let_def split: option.splits)
  then obtain es2 where 2: "trace (steps [renameOpen env st] ?t) = trace ?t @ es2"
      "list_all calmEvent es2"
    by (elim exE conjE)
  have f: "finish env st s = steps [renameOpen env st] ?t"
    unfolding finish_def
    using steps_append [of ?A "[renameOpen env st]" s] by simp
  have "trace (finish env st s) = trace s @ (es1 @ es2)" "list_all calmEvent (es1 @ es2)"
    unfolding f using 1 2 c1 by simp_all
  then show ?thesis by (rule_tac x = "es1 @ es2" in exI) simp
qed

lemma filesInv_names:
  assumes "filesInv env st 0 s"
  shows "namesInv env st s"
proof (cases "stopped s")
  case None
  with assms have run: "namedBy env st [] (trace s)"
      "map snd (generated (OutputDirectory st) (trace s)) = createdPaths (trace s)"
    by (simp_all add: filesInv_def Let_def)
  have len: "length (generated (OutputDirectory st) (trace s)) = length (createdPaths (trace s))"
    using arg_cong [OF run(2), of length] by simp
  show ?thesis unfolding namesInv_def using run(1) len by (simp add: run(2))
next
  case (Some e)
  with assms show ?thesis by (simp add: filesInv_def namesInv_def Let_def)
qed

lemma filesInv_rotations:
  assumes "filesInv env st 0 s"
  shows "length (createdPaths (trace s)) \<le> Suc (rotations (trace s))
     \<and> (stopped s = None \<longrightarrow> length (createdPaths (trace s)) = Suc (rotations (trace s)))"
  using assms by (cases "stopped s") (simp_all add: filesInv_def Let_def)

lemma namesInv_recordWriter: "namesInv env st (recordWriter env st bs)"
proof -
  let ?r = "running env st bs"
  have n: "namesInv env st ?r" using filesInv_running by (rule filesInv_names)
  show ?thesis
  proof (cases "stopped ?r")
    case (Some e)
    then have "recordWriter env st bs = ?r" by (simp add: recordWriter_running)
    then show ?thesis using n by simp
  next
    case None
    then have e: "recordWriter env st bs = finish env st ?r" by (simp add: recordWriter_running)
    from finish_calm [of env st ?r] obtain es where
      es: "trace (finish env st ?r) = trace ?r @ es" "list_all calmEvent es"
      by (elim exE conjE)
    have v: "createdPaths (trace (finish env st ?r)) = createdPaths (trace ?r)"
        "generated (OutputDirectory st) (trace (finish env st ?r)) = generated (OutputDirectory st) (trace ?r)"
        "namedBy env st [] (trace (finish env st ?r)) = namedBy env st [] (trace ?r)"
      using es
      by (simp_all add: createdPaths_append generated_append namedBy_append
            calm_created calm_generated calm_namedBy)
    show ?thesis
      unfolding e namesInv_def v using n [unfolded namesInv_def] None by blast
  qed
qed

text \<open>
  Claim C7. In every run of \<^verbatim>\<open>recordWriter\<close>, while the channel is open and after it is
  closed: the serial numbers given to \<^verbatim>\<open>generateWarcFileName\<close> are 1, 2, ..., k in this order,
  read as the signed 64-bit integers they are; every name in the trace was generated from the
  serial logged with it; the files created are, in order, those named, so the i-th file
  created has the name generated from serial i, and at most the last name has no file (when
  \<^verbatim>\<open>os.Create\<close> failed); while the channel is open and nothing has panicked, the number of
  files created is one more than the number of rotations. So the first file has serial 1 and
  each rotation opens a file under the next serial. The bound on the number of batches keeps
  the count below the largest Go \<^verbatim>\<open>int\<close>.
\<close>

theorem recordWriter_serials:
  assumes "length batches < 2 ^ 63 - 1"
    and "s = running env st batches \<or> s = recordWriter env st batches"
  shows "1 \<le> length (serials (trace s))
     \<and> length (serials (trace s)) \<le> Suc (length batches)
     \<and> map sint (serials (trace s)) = map int [1..<Suc (length (serials (trace s)))]
     \<and> namedBy env st [] (trace s)
     \<and> map fst (generated (OutputDirectory st) (trace s)) = serials (trace s)
     \<and> createdPaths (trace s)
         = take (length (createdPaths (trace s))) (map snd (generated (OutputDirectory st) (trace s)))
     \<and> length (generated (OutputDirectory st) (trace s)) \<le> Suc (length (createdPaths (trace s)))
     \<and> (stopped s = None \<longrightarrow>
           length (createdPaths (trace s)) = length (generated (OutputDirectory st) (trace s)))
     \<and> (s = running env st batches \<longrightarrow>
           length (createdPaths (trace s)) \<le> Suc (rotations (trace s))
           \<and> (stopped s = None \<longrightarrow> length (createdPaths (trace s)) = Suc (rotations (trace s))))"
proof -
  note count = serials_count_up [OF assms]
  have names: "namesInv env st s"
    using assms(2) filesInv_names [OF filesInv_running] namesInv_recordWriter by blast
  have rot: "s = running env st batches \<longrightarrow>
           length (createdPaths (trace s)) \<le> Suc (rotations (trace s))
           \<and> (stopped s = None \<longrightarrow> length (createdPaths (trace s)) = Suc (rotations (trace s)))"
    using filesInv_rotations [OF filesInv_running] by blast
  show ?thesis
    using count names [unfolded namesInv_def] rot generated_serials [of "OutputDirectory st" "trace s"]
    by blast
qed

theorem recordWriter_serials_witness:
  "length [demoBatch ''t1'', demoBatch ''t2''] < 2 ^ 63 - 1
   \<and> map sint (serials (trace (recordWriter demoEnv (demoSettings []) [demoBatch ''t1'', demoBatch ''t2'']))) = [1, 2]
   \<and> generated ''out/'' (trace (recordWriter demoEnv (demoSettings []) [demoBatch ''t1'', demoBatch ''t2'']))
       = [(1, ''out/A-1.warc.open''), (2, ''out/A-2.warc.open'')]
   \<and> createdPaths (trace (recordWriter demoEnv (demoSettings []) [demoBatch ''t1'', demoBatch ''t2'']))
       = [''out/A-1.warc.open'', ''out/A-2.warc.open'']
   \<and> stopped (running demoEnv (demoSettings []) [demoBatch ''t1'', demoBatch ''t2'']) = None
   \<and> rotations (trace (running demoEnv (demoSettings []) [demoBatch ''t1'', demoBatch ''t2''])) = 1
   \<and> length (createdPaths (trace (running demoEnv (demoSettings []) [demoBatch ''t1'', demoBatch ''t2''])))
       = 2"
proof -
  let ?bs = "[demoBatch ''t1'', demoBatch ''t2'']"
  let ?s = "recordWriter demoEnv (demoSettings []) ?bs"
  let ?r = "running demoEnv (demoSettings []) ?bs"
  have small: "length ?bs < 2 ^ 63 - 1" by simp
  have len: "length (serials (trace ?s)) = 2"
    by (simp add: rotator_defs demo_defs serials_def)
  have "map sint (serials (trace ?s)) = map int [1..<Suc (length (serials (trace ?s)))]"
    using recordWriter_serials [OF small, of ?s demoEnv "demoSettings []"] by blast
  also have "\<dots> = [1, 2]" unfolding len by (simp add: upt_rec)
  finally have a: "map sint (serials (trace ?s)) = [1, 2]" .
  have g: "generated ''out/'' (trace ?s) = [(1, ''out/A-1.warc.open''), (2, ''out/A-2.warc.open'')]"
    by (simp add: rotator_defs demo_defs generated_def)
  have c: "createdPaths (trace ?s) = [''out/A-1.warc.open'', ''out/A-2.warc.open'']"
    by (simp add: rotator_defs demo_defs createdPaths_def)
  have run: "stopped ?r = None"
    by (simp add: rotator_defs demo_defs)
  have rot: "rotations (trace ?r) = 1"
    by (simp add: rotator_defs demo_defs rotations_def)
  have "length (createdPaths (trace ?r)) = Suc (rotations (trace ?r))"
    using recordWriter_serials [OF small, of ?r demoEnv "demoSettings []"] run by blast
  then have two: "length (createdPaths (trace ?r)) = 2" using rot by simp
  show ?thesis using small a g c run rot two by (intro conjI)
qed


end
